theory Spec2Isabelle
  imports Main "HOL-Library.Word" "HOL-Library.Signed_Division"
begin

unbundle bit_operations_syntax

section \<open>C integers\<close>

text \<open>
  \<open>int\<close> and \<open>fixed_t\<close> are 32-bit two's complement values, \<open>unsigned char\<close> is a byte
  and \<open>uint32_t\<close> an unsigned 32-bit value. Comparisons of \<open>int\<close>s are the signed ones
  (\<open><s\<close>, \<open>\<le>s\<close>), \<open>>>\<close> on a signed value is the arithmetic shift and \<open>/\<close> truncates
  towards zero.
\<close>

type_synonym int32 = "32 word"
type_synonym fixed_t = "32 word"
type_synonym uint32 = "32 word"
type_synonym byte = "8 word"

definition c_div :: "int32 \<Rightarrow> int32 \<Rightarrow> int32" where
  "c_div a b = word_of_int (sint a sdiv sint b)"

definition FRACBITS :: nat where
  "FRACBITS = 16"

definition asr :: "int32 \<Rightarrow> nat \<Rightarrow> int32" where
  "asr a n = signed_drop_bit n a"

text \<open>
  Modelled from the spec: \<open>FixedMul\<close> of m_fixed.c, which is not among the sources.
  The spec gives \<open>fixedmul(a, b) = (a \<cdot> b) >> 16\<close> with the product taken in 64 bits;
  the result is a \<open>fixed_t\<close> again, so the 64-bit value is cut to its low 32 bits.
\<close>

definition FixedMul :: "fixed_t \<Rightarrow> fixed_t \<Rightarrow> fixed_t" where
  "FixedMul a b = ucast (signed_drop_bit FRACBITS ((scast a :: 64 word) * (scast b :: 64 word)))"

section \<open>printf's \<open>%d\<close>\<close>

definition digit_char :: "nat \<Rightarrow> char" where
  "digit_char d = char_of (48 + d)"

fun show_nat :: "nat \<Rightarrow> string" where
  "show_nat n = (if n < 10 then [digit_char n] else show_nat (n div 10) @ [digit_char (n mod 10)])"

declare show_nat.simps [simp del]

definition fmt_d :: "int32 \<Rightarrow> string" where
  "fmt_d w = (if sint w < 0 then CHR ''-'' # show_nat (nat (- sint w)) else show_nat (nat (sint w)))"

section \<open>The renderer's scratch state (r_defs.h, r_things.h, p_pspr.h)\<close>

text \<open>
  A pointer that the code tests against \<open>NULL\<close> is an option. \<open>drawsegs\<close> and
  \<open>vissprites\<close> are the entries below \<open>ds_p\<close> and \<open>vissprite_p\<close>, in array order.
  The headers that fix \<open>MAXDRAWSEGS\<close> and \<open>MAXVISSPRITES\<close> are not among the
  sources, so both limits are fields of the snapshot.
\<close>

record sector_t =
  floorheight :: fixed_t
  ceilingheight :: fixed_t

record seg_t =
  frontsector :: "sector_t option"

record drawseg_t =
  curline :: "seg_t option"
  ds_x1 :: int32
  ds_x2 :: int32
  scale1 :: fixed_t
  scale2 :: fixed_t
  silhouette :: int32

record vissprite_t =
  vis_x1 :: int32
  vis_x2 :: int32
  gz :: fixed_t
  gzt :: fixed_t
  vis_scale :: fixed_t
  mobjtype :: int32

record pspdef_t =
  psp_state :: "nat option"
  sx :: fixed_t
  sy :: fixed_t

record render_state =
  MAXDRAWSEGS :: nat
  MAXVISSPRITES :: nat
  drawsegs :: "drawseg_t list"
  vissprites :: "vissprite_t list"
  viewwidth :: int32
  viewheight :: int32
  centeryfrac :: fixed_t
  viewz :: fixed_t
  weapon_psp :: pspdef_t

section \<open>Geometry sampling inside \<open>extract_vectors_to_json\<close>\<close>

text \<open>Lines 150-151 and 216: a non-positive scale is replaced by 1.\<close>

definition fix_scale :: "fixed_t \<Rightarrow> fixed_t" where
  "fix_scale s = (if s \<le>s 0 then 1 else s)"

text \<open>Lines 153-162 and 218-227: the depth bucket.\<close>

definition distance_of :: "fixed_t \<Rightarrow> int32" where
  "distance_of s =
    (let distance =
       (if 0x20000 <s s then 0
        else if s <s 0x800 then 999
        else 999 - c_div ((s - 0x800) * 999) (0x20000 - 0x800));
         distance = (if distance <s 0 then 0 else distance);
         distance = (if 999 <s distance then 999 else distance)
     in distance)"

text \<open>
  Lines 168-185 and 232-241: \<open>centeryfrac - FixedMul(h - viewz, s)\<close>, shifted down to a
  pixel row and clamped with the two \<open>if\<close>s of the source, in their order.
\<close>

definition project_y :: "render_state \<Rightarrow> fixed_t \<Rightarrow> fixed_t \<Rightarrow> int32" where
  "project_y r h s = asr (centeryfrac r - FixedMul (h - viewz r) s) FRACBITS"

definition clamp_y :: "render_state \<Rightarrow> int32 \<Rightarrow> int32" where
  "clamp_y r y =
    (let y = (if y <s 0 then 0 else y);
         y = (if viewheight r \<le>s y then viewheight r - 1 else y)
     in y)"

text \<open>
  The body of the wall loop up to the output: \<open>None\<close> is a \<open>continue\<close>, \<open>Some\<close> the
  eight values handed to \<open>snprintf\<close>, in the order of the format string.
\<close>

type_synonym wall = "int32 \<times> int32 \<times> int32 \<times> int32 \<times> int32 \<times> int32 \<times> int32 \<times> int32"

type_synonym entity = "int32 \<times> int32 \<times> int32 \<times> int32 \<times> int32 \<times> int32"

definition wall_tuple :: "render_state \<Rightarrow> drawseg_t \<Rightarrow> wall option" where
  "wall_tuple r ds =
    (let x1 = ds_x1 ds; x2 = ds_x2 ds in
     if x1 <s 0 \<or> x2 <s 0 \<or> viewwidth r \<le>s x1 \<or> viewwidth r \<le>s x2 \<or> x2 <s x1 then None
     else case curline ds of
       None \<Rightarrow> None
     | Some seg \<Rightarrow>
        (case frontsector seg of
           None \<Rightarrow> None
         | Some sector \<Rightarrow>
            (let s1 = fix_scale (scale1 ds);
                 s2 = fix_scale (scale2 ds);
                 distance = distance_of s1;
                 y1_top = clamp_y r (project_y r (ceilingheight sector) s1);
                 y1_bottom = clamp_y r (project_y r (floorheight sector) s1);
                 y2_top = clamp_y r (project_y r (ceilingheight sector) s2);
                 y2_bottom = clamp_y r (project_y r (floorheight sector) s2)
             in Some (x1, y1_top, y1_bottom, x2, y2_top, y2_bottom, distance, silhouette ds))))"

text \<open>The body of the sprite loop: the six values \<open>x, y_top, y_bottom, height, type, distance\<close>.\<close>

definition entity_tuple :: "render_state \<Rightarrow> vissprite_t \<Rightarrow> entity option" where
  "entity_tuple r vis =
    (let x1 = vis_x1 vis; x2 = vis_x2 vis in
     if x1 <s 0 \<or> x2 <s 0 \<or> viewwidth r \<le>s x1 \<or> viewwidth r \<le>s x2 then None
     else
       (let x = c_div (x1 + x2) 2;
            sprite_scale = fix_scale (vis_scale vis);
            distance = distance_of sprite_scale;
            y_top = clamp_y r (project_y r (gzt vis) sprite_scale);
            y_bottom = clamp_y r (project_y r (gz vis) sprite_scale);
            sprite_height = y_bottom - y_top;
            sprite_height = (if sprite_height <s 5 then 5 else sprite_height)
        in Some (x, y_top, y_bottom, sprite_height, mobjtype vis, distance)))"

text \<open>Lines 264-278: the weapon overlay, \<open>None\<close> when the slot has no state.\<close>

definition weapon_xy :: "render_state \<Rightarrow> (int32 \<times> int32) option" where
  "weapon_xy r =
    (case psp_state (weapon_psp r) of
       None \<Rightarrow> None
     | Some _ \<Rightarrow>
        (let wx = asr (sx (weapon_psp r)) FRACBITS + c_div (viewwidth r) 2;
             wy = asr (sy (weapon_psp r)) FRACBITS + viewheight r - 32;
             wx = (if wx <s 0 then 0 else wx);
             wx = (if viewwidth r \<le>s wx then viewwidth r - 1 else wx);
             wy = (if wy <s 0 then 0 else wy);
             wy = (if viewheight r \<le>s wy then viewheight r - 1 else wy)
         in Some (wx, wy)))"

section \<open>The frame serializer: \<open>extract_vectors_to_json\<close>\<close>

text \<open>
  \<open>json_buf\<close> is a static array of 262144 bytes. \<open>content\<close> holds the bytes the current
  call has stored in it, from index 0 and without the terminating NUL; \<open>offset\<close> is the
  variable of the source, kept as an unbounded integer; \<open>oob\<close> records that some call
  stored a byte outside the array.
\<close>

record sbuf =
  content :: string
  offset :: int
  oob :: bool

definition sizeof_json_buf :: int where
  "sizeof_json_buf = 262144"

text \<open>
  \<open>offset += snprintf(json_buf + offset, sizeof(json_buf) - offset, ...)\<close> with the formatted
  text \<open>s\<close>. The size argument is a \<open>size_t\<close>, so a negative difference wraps to a huge
  bound. \<open>snprintf\<close> stores at most \<open>size - 1\<close> characters and a NUL (nothing when the
  size is 0) and returns the length of the whole text.
\<close>

definition snprintf :: "sbuf \<Rightarrow> string \<Rightarrow> sbuf" where
  "snprintf b s =
    (let off = offset b;
         size = (sizeof_json_buf - off) mod 2 ^ 64;
         k = (if size = 0 then 0 else min (int (length s)) (size - 1));
         stored = (if size = 0 then 0 else k + 1);
         inside = (0 \<le> off \<and> off + stored \<le> sizeof_json_buf)
     in \<lparr> content = (if 0 < stored \<and> inside then take (nat off) (content b) @ take (nat k) s
                      else content b),
          offset = off + int (length s),
          oob = (oob b \<or> (0 < stored \<and> \<not> inside)) \<rparr>)"

definition fmt_wall :: "wall \<Rightarrow> string" where
  \<open>fmt_wall t =
    (case t of (x1, y1_top, y1_bottom, x2, y2_top, y2_bottom, distance, sil) \<Rightarrow>
      ''['' @ fmt_d x1 @ '','' @ fmt_d y1_top @ '','' @ fmt_d y1_bottom @ '','' @ fmt_d x2 @ '','' @
      fmt_d y2_top @ '','' @ fmt_d y2_bottom @ '','' @ fmt_d distance @ '','' @ fmt_d sil @ '']'')\<close>

definition fmt_entity :: "entity \<Rightarrow> string" where
  \<open>fmt_entity t =
    (case t of (x, y_top, y_bottom, sprite_height, type, distance) \<Rightarrow>
      ''{"x":'' @ fmt_d x @ '',"y_top":'' @ fmt_d y_top @ '',"y_bottom":'' @ fmt_d y_bottom @
      '',"height":'' @ fmt_d sprite_height @ '',"type":'' @ fmt_d type @
      '',"distance":'' @ fmt_d distance @ ''}'')\<close>

text \<open>The wall loop: the separator is guarded by \<open>wall_output > 0\<close>.\<close>

fun wall_loop :: "render_state \<Rightarrow> drawseg_t list \<Rightarrow> nat \<Rightarrow> sbuf \<Rightarrow> sbuf" where
  "wall_loop r [] wall_output b = b"
| "wall_loop r (ds # rest) wall_output b =
    (case wall_tuple r ds of
       None \<Rightarrow> wall_loop r rest wall_output b
     | Some t \<Rightarrow>
        (let b = (if 0 < wall_output then snprintf b '','' else b);
             b = snprintf b (fmt_wall t)
         in wall_loop r rest (wall_output + 1) b))"

text \<open>The sprite loop: the separator is guarded by the loop index, \<open>i > 0\<close>.\<close>

fun sprite_loop :: "render_state \<Rightarrow> vissprite_t list \<Rightarrow> nat \<Rightarrow> sbuf \<Rightarrow> sbuf" where
  "sprite_loop r [] i b = b"
| "sprite_loop r (vis # rest) i b =
    (case entity_tuple r vis of
       None \<Rightarrow> sprite_loop r rest (i + 1) b
     | Some t \<Rightarrow>
        (let b = (if 0 < i then snprintf b '','' else b);
             b = snprintf b (fmt_entity t)
         in sprite_loop r rest (i + 1) b))"

definition fmt_weapon :: "(int32 \<times> int32) option \<Rightarrow> string" where
  \<open>fmt_weapon w =
    (case w of
       Some (wx, wy) \<Rightarrow> ''{"x":'' @ fmt_d wx @ '',"y":'' @ fmt_d wy @ '',"visible":true}''
     | None \<Rightarrow> ''{"visible":false}'')\<close>

text \<open>
  The result is the buffer and \<open>*out_len = offset\<close>. The loops run over the entries
  below \<open>ds_p\<close> and \<open>vissprite_p\<close>, cut at \<open>MAXDRAWSEGS\<close> and \<open>MAXVISSPRITES\<close>.
\<close>

definition extract_vectors_to_json :: "render_state \<Rightarrow> int32 \<Rightarrow> sbuf" where
  \<open>extract_vectors_to_json r g_frame_count =
    (let b = \<lparr> content = [], offset = 0, oob = False \<rparr>;
         b = snprintf b (''{"frame":'' @ fmt_d g_frame_count @ '',"walls":['');
         b = wall_loop r (take (MAXDRAWSEGS r) (drawsegs r)) 0 b;
         b = snprintf b ''],"entities":['';
         b = sprite_loop r (take (MAXVISSPRITES r) (vissprites r)) 0 b;
         b = snprintf b ''],"weapon":'';
         b = snprintf b (fmt_weapon (weapon_xy r));
         b = snprintf b ''}''
     in b)\<close>

section \<open>The socket and the kernel behind it (doom_socket.c)\<close>

text \<open>
  Bytes on the wire are \<open>char\<close>s. The two header fields are \<open>uint32_t\<close> values in host
  byte order; the model fixes the little-endian order of the hosts the bridge is built for.
\<close>

definition u32_bytes :: "uint32 \<Rightarrow> string" where
  "u32_bytes w = map (\<lambda>i. char_of (unat w div 256 ^ i)) [0, 1, 2, 3]"

definition bytes_u32 :: "string \<Rightarrow> uint32" where
  "bytes_u32 bs = word_of_nat (foldr (\<lambda>c acc. of_char c + 256 * acc) bs 0)"

definition MSG_FRAME_DATA :: uint32 where "MSG_FRAME_DATA = 0x01"
definition MSG_KEY_EVENT :: uint32 where "MSG_KEY_EVENT = 0x02"
definition MSG_INIT_COMPLETE :: uint32 where "MSG_INIT_COMPLETE = 0x03"
definition MSG_SHUTDOWN :: uint32 where "MSG_SHUTDOWN = 0x04"
definition MSG_SCREENSHOT :: uint32 where "MSG_SCREENSHOT = 0x05"

text \<open>
  What the kernel will do is part of the state. Inbound, \<open>rx\<close> lists what the peer's side
  of the stream delivers, in order: a segment of bytes that arrives together (a \<open>read\<close>
  returns at most what is left of the segment at the head, so segments shorter than the
  request are short reads), a moment at which nothing has arrived yet (\<open>select\<close> with a
  zero timeout reports nothing there, a blocking \<open>read\<close> waits it out), or a failing
  \<open>read\<close>. The end of the list is the peer's close: \<open>read\<close> returns 0.
  Outbound, \<open>wsched\<close> lists what the next \<open>write\<close> calls do: accept at most so many
  bytes, or fail; once it is used up every \<open>write\<close> accepts all it is given. \<open>tx\<close> is
  the byte stream the peer can read.
\<close>

datatype errno = EINTR | EAGAIN | EPIPE | ECONNRESET | EIO

datatype rd_event = Data string | NoData | RdFail errno

datatype wr_event = Accept nat | WrFail errno

record world =
  g_socket_fd :: int32
  fd_open :: bool
  rx :: "rd_event list"
  tx :: string
  wsched :: "wr_event list"
  socket_ret :: int32
  connect_ret :: int32
  malloc_ok :: bool

text \<open>\<open>read(fd, buf, n)\<close> with \<open>n > 0\<close>: the return value, the bytes stored, the rest of the stream.\<close>

fun sys_read :: "rd_event list \<Rightarrow> nat \<Rightarrow> int \<times> string \<times> rd_event list" where
  "sys_read [] n = (0, [], [])"
| "sys_read (RdFail e # es) n = (- 1, [], es)"
| "sys_read (NoData # es) n = sys_read es n"
| "sys_read (Data bs # es) n =
    (if bs = [] then sys_read es n
     else (int (min n (length bs)), take n bs,
           (if n < length bs then Data (drop n bs) # es else es)))"

text \<open>\<open>select\<close> on the socket with a zero timeout.\<close>

fun sys_select :: "rd_event list \<Rightarrow> int \<times> rd_event list" where
  "sys_select (NoData # es) = (0, es)"
| "sys_select es = (1, es)"

text \<open>\<open>write(fd, buf, n)\<close> with the \<open>n\<close> bytes \<open>buf\<close>.\<close>

definition sys_write :: "world \<Rightarrow> string \<Rightarrow> int \<times> world" where
  "sys_write w buf =
    (case wsched w of
       [] \<Rightarrow> (int (length buf), w\<lparr>tx := tx w @ buf\<rparr>)
     | Accept m # ws \<Rightarrow> (int (min m (length buf)), w\<lparr>tx := tx w @ take m buf, wsched := ws\<rparr>)
     | WrFail e # ws \<Rightarrow> (- 1, w\<lparr>wsched := ws\<rparr>))"

text \<open>
  \<open>recv_exactly(fd, buffer, n)\<close>: the return value, the bytes stored in \<open>buffer\<close> and the
  world afterwards. \<open>n\<close> is what is still missing, \<open>n - total_read\<close> of the source.
\<close>

function recv_exactly :: "world \<Rightarrow> nat \<Rightarrow> int \<times> string \<times> world" where
  "recv_exactly w n =
    (if n = 0 then (0, [], w)
     else case sys_read (rx w) n of
       (bytes_read, bs, rx') \<Rightarrow>
         if bytes_read \<le> 0 then (- 1, [], w\<lparr>rx := rx'\<rparr>)
         else case recv_exactly (w\<lparr>rx := rx'\<rparr>) (n - nat bytes_read) of
           (r, got, w') \<Rightarrow> (r, bs @ got, w'))"
  by pat_completeness auto
termination
  by (relation "measure (\<lambda>(w, n). n)") auto

declare recv_exactly.simps [simp del]

text \<open>\<open>send_exactly(fd, buffer, n)\<close> with the bytes that are still to be sent.\<close>

function send_exactly :: "world \<Rightarrow> string \<Rightarrow> int \<times> world" where
  "send_exactly w buf =
    (if buf = [] then (0, w)
     else case sys_write w buf of
       (bytes_sent, w') \<Rightarrow>
         if bytes_sent \<le> 0 then (- 1, w')
         else send_exactly w' (drop (nat bytes_sent) buf))"
  by pat_completeness auto
termination
  by (relation "measure (\<lambda>(w, buf). length buf)") auto

declare send_exactly.simps [simp del]

definition close_socket :: "world \<Rightarrow> world" where
  "close_socket w = w\<lparr>fd_open := False, g_socket_fd := - 1\<rparr>"

definition doom_socket_connect :: "world \<Rightarrow> int32 \<times> world" where
  "doom_socket_connect w0 =
    (let w = w0\<lparr>g_socket_fd := socket_ret w0,
                fd_open := (if socket_ret w0 <s 0 then fd_open w0 else True)\<rparr> in
     if g_socket_fd w <s 0 then (- 1, w)
     else if connect_ret w <s 0 then (- 1, close_socket w)
     else case recv_exactly w 4 of
       (r, type_bytes, w) \<Rightarrow>
         if r < 0 then (- 1, close_socket w)
         else case recv_exactly w 4 of
           (r, len_bytes, w) \<Rightarrow>
             if r < 0 then (- 1, close_socket w)
             else
               (let msg_type = bytes_u32 type_bytes;
                    payload_len = bytes_u32 len_bytes in
                if msg_type \<noteq> MSG_INIT_COMPLETE then (- 1, close_socket w)
                else if 0 < payload_len \<and> malloc_ok w then
                  (case recv_exactly w (unat payload_len) of (r, discard_buf, w) \<Rightarrow> (0, w))
                else (0, w)))"

text \<open>
  \<open>doom_socket_send_message\<close>; \<open>len\<close> bytes are taken from \<open>json_data\<close>, and the header
  carries \<open>(uint32_t)len\<close>.
\<close>

definition doom_socket_send_message :: "world \<Rightarrow> uint32 \<Rightarrow> string \<Rightarrow> nat \<Rightarrow> int32 \<times> world" where
  "doom_socket_send_message w msg_type json_data len =
    (if g_socket_fd w <s 0 then (- 1, w)
     else
       (let header = u32_bytes msg_type @ u32_bytes (word_of_nat len) in
        case send_exactly w header of
          (r, w) \<Rightarrow>
            if r < 0 then (- 1, w)
            else case send_exactly w (take len json_data) of
              (r, w) \<Rightarrow> if r < 0 then (- 1, w) else (0, w)))"

definition doom_socket_send_frame :: "world \<Rightarrow> string \<Rightarrow> nat \<Rightarrow> int32 \<times> world" where
  "doom_socket_send_frame w json_data len =
    (if g_socket_fd w <s 0 then (- 1, w)
     else
       (let header = u32_bytes MSG_FRAME_DATA @ u32_bytes (word_of_nat len) in
        case send_exactly w header of
          (r, w) \<Rightarrow>
            if r < 0 then (- 1, w)
            else case send_exactly w (take len json_data) of
              (r, w) \<Rightarrow> if r < 0 then (- 1, w) else (0, w)))"

definition doom_socket_close :: "world \<Rightarrow> world" where
  "doom_socket_close w =
    (if 0 \<le>s g_socket_fd w then
       (case sys_write w (u32_bytes MSG_SHUTDOWN @ u32_bytes 0) of (r, w) \<Rightarrow> close_socket w)
     else w)"

definition doom_socket_is_connected :: "world \<Rightarrow> int32" where
  "doom_socket_is_connected w = (if 0 \<le>s g_socket_fd w then 1 else 0)"

subsection \<open>Key events\<close>

text \<open>\<open>strstr\<close>: the suffix that starts at the first occurrence, if there is one.\<close>

fun starts_with :: "string \<Rightarrow> string \<Rightarrow> bool" where
  "starts_with s [] = True"
| "starts_with [] (p # ps) = False"
| "starts_with (c # cs) (p # ps) = (c = p \<and> starts_with cs ps)"

fun strstr :: "string \<Rightarrow> string \<Rightarrow> string option" where
  "strstr [] needle = (if needle = [] then Some [] else None)"
| "strstr (c # cs) needle = (if starts_with (c # cs) needle then Some (c # cs) else strstr cs needle)"

definition isspace :: "char \<Rightarrow> bool" where
  "isspace c = (c = CHR '' '' \<or> (9 :: nat) \<le> of_char c \<and> (of_char c :: nat) \<le> 13)"

definition isdigit :: "char \<Rightarrow> bool" where
  "isdigit c = ((48 :: nat) \<le> of_char c \<and> (of_char c :: nat) \<le> 57)"

fun atoi_digits :: "int \<Rightarrow> string \<Rightarrow> int" where
  "atoi_digits acc [] = acc"
| "atoi_digits acc (c # cs) =
    (if isdigit c then atoi_digits (acc * 10 + (of_char c - 48)) cs else acc)"

text \<open>
  libc's \<open>atoi(s)\<close> is \<open>(int) strtol(s, NULL, 10)\<close>. \<open>atoi_value\<close> is the number that is
  read: white space, an optional sign, decimal digits. \<open>strtol\<close> returns it as a \<open>long\<close>,
  64 bits on the hosts the bridge is built for, and returns \<open>LONG_MAX\<close> or \<open>LONG_MIN\<close> when
  the number does not fit; the cast to \<open>int\<close> keeps the low 32 bits.
\<close>

definition atoi_value :: "string \<Rightarrow> int" where
  "atoi_value s =
    (case dropWhile isspace s of
       [] \<Rightarrow> 0
     | c # cs \<Rightarrow>
        if c = CHR ''-'' then - atoi_digits 0 cs
        else if c = CHR ''+'' then atoi_digits 0 cs
        else atoi_digits 0 (c # cs))"

definition LONG_MAX :: int where
  "LONG_MAX = 2 ^ 63 - 1"

definition LONG_MIN :: int where
  "LONG_MIN = - (2 ^ 63)"

definition strtol :: "string \<Rightarrow> int" where
  "strtol s = max LONG_MIN (min LONG_MAX (atoi_value s))"

definition atoi :: "string \<Rightarrow> int32" where
  "atoi s = word_of_int (strtol s)"

text \<open>
  Lines 229-255 on the NUL-terminated \<open>json_buf\<close>: a NUL inside the payload ends the
  string. The result is \<open>(pressed_val, key_val)\<close>.
\<close>

definition c_string :: "string \<Rightarrow> string" where
  "c_string bs = takeWhile (\<lambda>c. c \<noteq> CHR 0x00) bs"

definition parse_key_event :: "string \<Rightarrow> int32 \<times> int32" where
  \<open>parse_key_event payload =
    (let json_buf = c_string payload;
         pressed_val =
           (case strstr json_buf ''"pressed":'' of
              None \<Rightarrow> 0
            | Some pressed_str \<Rightarrow> (if strstr pressed_str ''true'' \<noteq> None then 1 else 0));
         key_val =
           (case strstr json_buf ''"key":'' of
              None \<Rightarrow> 0
            | Some key_str \<Rightarrow>
                atoi (dropWhile (\<lambda>c. c = CHR '' '' \<or> c = CHR 0x09) (drop 6 key_str)))
     in (pressed_val, key_val))\<close>

text \<open>
  \<open>doom_socket_recv_key\<close>: the return value, what was stored through \<open>pressed\<close> and
  \<open>key\<close> (nothing unless the call returns 1), and the world afterwards.
\<close>

definition doom_socket_recv_key :: "world \<Rightarrow> int32 \<times> (int32 \<times> byte) option \<times> world" where
  "doom_socket_recv_key w =
    (if g_socket_fd w <s 0 then (0, None, w)
     else case sys_select (rx w) of
       (ret, rx') \<Rightarrow>
         (let w = w\<lparr>rx := rx'\<rparr> in
          if ret \<le> 0 then (0, None, w)
          else case recv_exactly w 4 of
            (r, type_bytes, w) \<Rightarrow>
              if r < 0 then (- 1, None, w)
              else case recv_exactly w 4 of
                (r, len_bytes, w) \<Rightarrow>
                  if r < 0 then (- 1, None, w)
                  else
                    (let msg_type = bytes_u32 type_bytes;
                         payload_len = bytes_u32 len_bytes in
                     if msg_type = MSG_SHUTDOWN then (- 1, None, w)
                     else if msg_type \<noteq> MSG_KEY_EVENT then
                       (if 0 < payload_len \<and> payload_len < 65536 \<and> malloc_ok w then
                          (case recv_exactly w (unat payload_len) of
                             (r, discard_buf, w) \<Rightarrow> (0, None, w))
                        else (0, None, w))
                     else if 256 \<le> payload_len then (- 1, None, w)
                     else case recv_exactly w (unat payload_len) of
                       (r, payload, w) \<Rightarrow>
                         if r < 0 then (- 1, None, w)
                         else
                           (case parse_key_event payload of
                              (pressed_val, key_val) \<Rightarrow>
                                (1, Some (pressed_val, ucast key_val), w)))))"

section \<open>The frame hook (doomgeneric_kicad_dual_v2.c)\<close>

text \<open>
  The SDL events that \<open>SDL_PollEvent\<close> hands out during one tick, the clock and the results
  of the SDL calls of the screenshot branch are inputs of the tick. The key tables of SDL
  and doomkeys.h are not among the sources, so \<open>convertToDoomKey\<close> is a parameter.
\<close>

datatype sdl_event = SDL_QUIT | SDL_KEYDOWN uint32 | SDL_KEYUP uint32 | SDL_OTHER

record bridge =
  sock :: world
  g_frame_count :: int32
  s_KeyQueue :: "16 word list"
  s_KeyQueueWriteIndex :: uint32
  s_KeyQueueReadIndex :: uint32
  last_screenshot_time :: uint32

record tick =
  render :: render_state
  sdl_events :: "sdl_event list"
  current_time :: uint32
  surface_ok :: bool
  savebmp_ok :: bool

datatype outcome = Exited int32 bridge | Running bridge

definition KEYQUEUE_SIZE :: uint32 where
  "KEYQUEUE_SIZE = 16"

text \<open>
  \<open>s_KeyQueue\<close> has \<open>KEYQUEUE_SIZE\<close> entries and the write index is reduced modulo
  \<open>KEYQUEUE_SIZE\<close> after every store, so the index of the store is inside the array.
\<close>

definition addKeyToQueue :: "(uint32 \<Rightarrow> byte) \<Rightarrow> int32 \<Rightarrow> uint32 \<Rightarrow> bridge \<Rightarrow> bridge" where
  "addKeyToQueue convertToDoomKey pressed keyCode b =
    (let key = convertToDoomKey keyCode;
         keyData = (ucast (push_bit 8 pressed OR ucast key) :: 16 word)
     in b\<lparr>s_KeyQueue := (s_KeyQueue b)[unat (s_KeyQueueWriteIndex b) := keyData],
          s_KeyQueueWriteIndex := (s_KeyQueueWriteIndex b + 1) mod KEYQUEUE_SIZE\<rparr>)"

fun handleKeyInput :: "(uint32 \<Rightarrow> byte) \<Rightarrow> sdl_event list \<Rightarrow> bridge \<Rightarrow> outcome" where
  "handleKeyInput conv [] b = Running b"
| "handleKeyInput conv (SDL_QUIT # es) b = Exited 1 b"
| "handleKeyInput conv (SDL_KEYDOWN keysym # es) b = handleKeyInput conv es (addKeyToQueue conv 1 keysym b)"
| "handleKeyInput conv (SDL_KEYUP keysym # es) b = handleKeyInput conv es (addKeyToQueue conv 0 keysym b)"
| "handleKeyInput conv (SDL_OTHER # es) b = handleKeyInput conv es b"

text \<open>Lines 342-388: the screenshot branch, every three seconds.\<close>

definition screenshot_msg :: "uint32 \<Rightarrow> string" where
  \<open>screenshot_msg now =
    ''{"sdl_path":"'' @ ''/Users/tribune/Desktop/KiDoom/screenshots/sdl/sdl_'' @
    show_nat (unat now div 1000) @ ''.bmp'' @ ''"}''\<close>

definition screenshot_step :: "tick \<Rightarrow> bridge \<Rightarrow> bridge" where
  "screenshot_step t b =
    (if last_screenshot_time b = 0 then b\<lparr>last_screenshot_time := current_time t\<rparr>
     else if 3000 \<le> current_time t - last_screenshot_time b then
       (let b = (if surface_ok t \<and> savebmp_ok t then
                   (case doom_socket_send_message (sock b) MSG_SCREENSHOT
                           (screenshot_msg (current_time t))
                           (length (screenshot_msg (current_time t))) of
                      (r, w) \<Rightarrow> b\<lparr>sock := w\<rparr>)
                 else b)
        in b\<lparr>last_screenshot_time := current_time t\<rparr>)
     else b)"

text \<open>
  \<open>DG_DrawFrame\<close>. Drawing through SDL and the printed lines leave the state alone.
  \<open>exit(1)\<close> ends the process: \<open>Exited\<close>.
\<close>

definition DG_DrawFrame :: "(uint32 \<Rightarrow> byte) \<Rightarrow> tick \<Rightarrow> bridge \<Rightarrow> outcome" where
  "DG_DrawFrame conv t b =
    (let json = extract_vectors_to_json (render t) (g_frame_count b) in
     case doom_socket_send_frame (sock b) (content json) (nat (offset json)) of
       (r, w) \<Rightarrow>
         if r <s 0 then Exited 1 (b\<lparr>sock := w\<rparr>)
         else case handleKeyInput conv (sdl_events t) (b\<lparr>sock := w\<rparr>) of
           Exited c b \<Rightarrow> Exited c b
         | Running b \<Rightarrow>
             Running (screenshot_step t (b\<lparr>g_frame_count := g_frame_count b + 1\<rparr>)))"

definition after :: "outcome \<Rightarrow> bridge" where
  "after out = (case out of Exited c b \<Rightarrow> b | Running b \<Rightarrow> b)"

section \<open>Notions the properties are stated with\<close>

subsection \<open>The text of a frame\<close>

text \<open>What the calls of \<open>snprintf\<close> format, one after the other, with no buffer in between.\<close>

fun walls_text :: "render_state \<Rightarrow> drawseg_t list \<Rightarrow> nat \<Rightarrow> string" where
  "walls_text r [] wall_output = []"
| "walls_text r (ds # rest) wall_output =
    (case wall_tuple r ds of
       None \<Rightarrow> walls_text r rest wall_output
     | Some t \<Rightarrow>
        (if 0 < wall_output then '','' else []) @ fmt_wall t @ walls_text r rest (wall_output + 1))"

fun sprites_text :: "render_state \<Rightarrow> vissprite_t list \<Rightarrow> nat \<Rightarrow> string" where
  "sprites_text r [] i = []"
| "sprites_text r (vis # rest) i =
    (case entity_tuple r vis of
       None \<Rightarrow> sprites_text r rest (i + 1)
     | Some t \<Rightarrow> (if 0 < i then '','' else []) @ fmt_entity t @ sprites_text r rest (i + 1))"

definition frame_text :: "render_state \<Rightarrow> int32 \<Rightarrow> string" where
  \<open>frame_text r frame_count =
    ''{"frame":'' @ fmt_d frame_count @ '',"walls":['' @
    walls_text r (take (MAXDRAWSEGS r) (drawsegs r)) 0 @
    ''],"entities":['' @
    sprites_text r (take (MAXVISSPRITES r) (vissprites r)) 0 @
    ''],"weapon":'' @ fmt_weapon (weapon_xy r) @ ''}''\<close>

subsection \<open>JSON texts (RFC 8259)\<close>

definition is_ws :: "char \<Rightarrow> bool" where
  "is_ws c = (c = CHR '' '' \<or> c = CHR 0x09 \<or> c = CHR 0x0A \<or> c = CHR 0x0D)"

definition skip_ws :: "string \<Rightarrow> string" where
  "skip_ws s = dropWhile is_ws s"

definition is_hex :: "char \<Rightarrow> bool" where
  "is_hex c = (isdigit c \<or> c \<in> set ''abcdefABCDEF'')"

text \<open>The rest of the input after the closing quote of a string whose opening quote is read.\<close>

fun json_string :: "string \<Rightarrow> string option" where
  "json_string [] = None"
| "json_string (c # cs) =
    (if c = CHR 0x22 then Some cs
     else if c = CHR 0x5C then
       (case cs of
          [] \<Rightarrow> None
        | e # es \<Rightarrow>
            if e \<in> set [CHR 0x22, CHR 0x5C, CHR ''/'', CHR ''b'', CHR ''f'', CHR ''n'', CHR ''r'', CHR ''t'']
            then json_string es
            else if e = CHR ''u'' then
              (case es of
                 h1 # h2 # h3 # h4 # rest \<Rightarrow>
                   if is_hex h1 \<and> is_hex h2 \<and> is_hex h3 \<and> is_hex h4 then json_string rest else None
               | _ \<Rightarrow> None)
            else None)
     else if (of_char c :: nat) < 32 then None
     else json_string cs)"

definition json_digits :: "string \<Rightarrow> string option" where
  "json_digits s = (case s of [] \<Rightarrow> None | d # t \<Rightarrow> if isdigit d then Some (dropWhile isdigit t) else None)"

definition json_exp :: "string \<Rightarrow> string option" where
  "json_exp s =
    (case s of
       [] \<Rightarrow> Some s
     | c # t \<Rightarrow>
        if c = CHR ''e'' \<or> c = CHR ''E'' then
          (case t of
             [] \<Rightarrow> None
           | g # u \<Rightarrow> if g = CHR ''+'' \<or> g = CHR ''-'' then json_digits u else json_digits t)
        else Some s)"

definition json_frac :: "string \<Rightarrow> string option" where
  "json_frac s =
    (case s of
       [] \<Rightarrow> Some s
     | c # t \<Rightarrow>
        if c = CHR ''.'' then (case json_digits t of None \<Rightarrow> None | Some u \<Rightarrow> json_exp u)
        else json_exp s)"

definition json_number :: "string \<Rightarrow> string option" where
  "json_number s =
    (case (case s of [] \<Rightarrow> s | c # t \<Rightarrow> if c = CHR ''-'' then t else s) of
       [] \<Rightarrow> None
     | d # t \<Rightarrow>
        if d = CHR ''0'' then json_frac t
        else if isdigit d then json_frac (dropWhile isdigit t)
        else None)"

text \<open>
  A value, the rest of an array after its first element, one member of an object, and
  the rest of an object after its first member. The first argument bounds the number of
  nested and chained calls; the length of the text is always enough.
\<close>

fun json_value :: "nat \<Rightarrow> string \<Rightarrow> string option"
  and json_elements :: "nat \<Rightarrow> string \<Rightarrow> string option"
  and json_member :: "nat \<Rightarrow> string \<Rightarrow> string option"
  and json_members :: "nat \<Rightarrow> string \<Rightarrow> string option" where
  "json_value 0 s = None"
| "json_value (Suc f) s =
    (case skip_ws s of
       [] \<Rightarrow> None
     | c # t \<Rightarrow>
        if c = CHR ''['' then
          (case skip_ws t of
             [] \<Rightarrow> None
           | d # u \<Rightarrow>
              if d = CHR '']'' then Some u
              else (case json_value f t of None \<Rightarrow> None | Some v \<Rightarrow> json_elements f v))
        else if c = CHR ''{'' then
          (case skip_ws t of
             [] \<Rightarrow> None
           | d # u \<Rightarrow>
              if d = CHR ''}'' then Some u
              else (case json_member f t of None \<Rightarrow> None | Some v \<Rightarrow> json_members f v))
        else if c = CHR 0x22 then json_string t
        else if starts_with (c # t) ''true'' then Some (drop 4 (c # t))
        else if starts_with (c # t) ''false'' then Some (drop 5 (c # t))
        else if starts_with (c # t) ''null'' then Some (drop 4 (c # t))
        else json_number (c # t))"
| "json_elements 0 s = None"
| "json_elements (Suc f) s =
    (case skip_ws s of
       [] \<Rightarrow> None
     | c # t \<Rightarrow>
        if c = CHR '']'' then Some t
        else if c = CHR '','' then
          (case json_value f t of None \<Rightarrow> None | Some v \<Rightarrow> json_elements f v)
        else None)"
| "json_member 0 s = None"
| "json_member (Suc f) s =
    (case skip_ws s of
       [] \<Rightarrow> None
     | c # t \<Rightarrow>
        if c = CHR 0x22 then
          (case json_string t of
             None \<Rightarrow> None
           | Some u \<Rightarrow>
              (case skip_ws u of
                 [] \<Rightarrow> None
               | e # v \<Rightarrow> if e = CHR '':'' then json_value f v else None))
        else None)"
| "json_members 0 s = None"
| "json_members (Suc f) s =
    (case skip_ws s of
       [] \<Rightarrow> None
     | c # t \<Rightarrow>
        if c = CHR ''}'' then Some t
        else if c = CHR '','' then
          (case json_member f t of None \<Rightarrow> None | Some v \<Rightarrow> json_members f v)
        else None)"

definition json_valid :: "string \<Rightarrow> bool" where
  "json_valid s =
    (case json_value (Suc (length s)) s of None \<Rightarrow> False | Some rest \<Rightarrow> skip_ws rest = [])"

subsection \<open>Ranges of the sampled values\<close>

definition emitted_walls :: "render_state \<Rightarrow> wall list" where
  "emitted_walls r = List.map_filter (wall_tuple r) (take (MAXDRAWSEGS r) (drawsegs r))"

definition emitted_entities :: "render_state \<Rightarrow> entity list" where
  "emitted_entities r = List.map_filter (entity_tuple r) (take (MAXVISSPRITES r) (vissprites r))"

definition in_rows :: "render_state \<Rightarrow> int32 \<Rightarrow> bool" where
  "in_rows r y = (0 \<le> sint y \<and> sint y \<le> sint (viewheight r) - 1)"

definition in_bucket :: "int32 \<Rightarrow> bool" where
  "in_bucket d = (0 \<le> sint d \<and> sint d \<le> 999)"

definition wall_ok :: "render_state \<Rightarrow> wall \<Rightarrow> bool" where
  "wall_ok r t =
    (case t of (x1, y1_top, y1_bottom, x2, y2_top, y2_bottom, distance, sil) \<Rightarrow>
      0 \<le> sint x1 \<and> sint x1 \<le> sint x2 \<and> sint x2 < sint (viewwidth r) \<and>
      in_rows r y1_top \<and> in_rows r y1_bottom \<and> in_rows r y2_top \<and> in_rows r y2_bottom \<and>
      in_bucket distance)"

definition entity_ok :: "render_state \<Rightarrow> entity \<Rightarrow> bool" where
  "entity_ok r t =
    (case t of (x, y_top, y_bottom, sprite_height, type, distance) \<Rightarrow>
      0 \<le> sint x \<and> sint x < sint (viewwidth r) \<and>
      in_rows r y_top \<and> in_rows r y_bottom \<and>
      5 \<le> sint sprite_height \<and> sint sprite_height = max 5 (sint y_bottom - sint y_top) \<and>
      in_bucket distance)"

definition top_above_bottom :: "entity \<Rightarrow> bool" where
  "top_above_bottom t =
    (case t of (x, y_top, y_bottom, sprite_height, type, distance) \<Rightarrow> sint y_top \<le> sint y_bottom)"

text \<open>
  The projection of the height \<open>h\<close> at scale \<open>s\<close> stays inside 32 bits at every step: the
  difference to \<open>viewz\<close>, the shifted product and the difference to \<open>centeryfrac\<close>.
\<close>

definition projects_exactly :: "render_state \<Rightarrow> fixed_t \<Rightarrow> fixed_t \<Rightarrow> bool" where
  "projects_exactly r h s =
    (let d = sint h - sint (viewz r);
         m = (d * sint s) div 2 ^ 16;
         y = sint (centeryfrac r) - m
     in - (2 ^ 31) \<le> d \<and> d < 2 ^ 31 \<and> - (2 ^ 31) \<le> m \<and> m < 2 ^ 31 \<and>
        - (2 ^ 31) \<le> y \<and> y < 2 ^ 31)"

definition sprite_projects_exactly :: "render_state \<Rightarrow> vissprite_t \<Rightarrow> bool" where
  "sprite_projects_exactly r vis =
    (sint (gz vis) \<le> sint (gzt vis) \<and>
     projects_exactly r (gzt vis) (fix_scale (vis_scale vis)) \<and>
     projects_exactly r (gz vis) (fix_scale (vis_scale vis)))"

subsection \<open>What a stream delivers\<close>

text \<open>The bytes that reads can obtain before the first failing read or the peer's close.\<close>

fun avail :: "rd_event list \<Rightarrow> string" where
  "avail [] = []"
| "avail (Data bs # es) = bs @ avail es"
| "avail (NoData # es) = avail es"
| "avail (RdFail e # es) = []"

subsection \<open>Sample frames\<close>

definition no_weapon :: pspdef_t where
  "no_weapon = \<lparr> psp_state = None, sx = 0, sy = 0 \<rparr>"

definition room_wall :: drawseg_t where
  "room_wall =
    \<lparr> curline = Some \<lparr> frontsector = Some \<lparr> floorheight = 0, ceilingheight = 0x800000 \<rparr> \<rparr>,
      ds_x1 = 10, ds_x2 = 30, scale1 = 0x10000, scale2 = 0x10000, silhouette = 3 \<rparr>"

definition imp_sprite :: vissprite_t where
  "imp_sprite = \<lparr> vis_x1 = 10, vis_x2 = 20, gz = 0, gzt = 0x380000, vis_scale = 0x10000, mobjtype = 3 \<rparr>"

definition scene :: render_state where
  "scene =
    \<lparr> MAXDRAWSEGS = 256, MAXVISSPRITES = 128,
      drawsegs = [room_wall], vissprites = [imp_sprite],
      viewwidth = 320, viewheight = 200, centeryfrac = 10000000, viewz = 0x200000,
      weapon_psp = no_weapon \<rparr>"

definition tall_sprite :: vissprite_t where
  "tall_sprite = \<lparr> vis_x1 = 10, vis_x2 = 20, gz = 0, gzt = 0x4032800, vis_scale = 0x200000, mobjtype = 3 \<rparr>"

definition tall_scene :: render_state where
  "tall_scene =
    \<lparr> MAXDRAWSEGS = 256, MAXVISSPRITES = 128,
      drawsegs = [], vissprites = [tall_sprite],
      viewwidth = 320, viewheight = 200, centeryfrac = 0x640000, viewz = 0,
      weapon_psp = no_weapon \<rparr>"

definition flood_scene :: render_state where
  "flood_scene =
    \<lparr> MAXDRAWSEGS = 20000, MAXVISSPRITES = 128,
      drawsegs = replicate 20000 room_wall, vissprites = [],
      viewwidth = 320, viewheight = 200, centeryfrac = 10000000, viewz = 0x200000,
      weapon_psp = no_weapon \<rparr>"

definition hidden_sprite :: vissprite_t where
  "hidden_sprite = \<lparr> vis_x1 = - 1, vis_x2 = 20, gz = 0, gzt = 0x380000, vis_scale = 0x10000, mobjtype = 3 \<rparr>"

definition hidden_first_scene :: render_state where
  "hidden_first_scene =
    \<lparr> MAXDRAWSEGS = 256, MAXVISSPRITES = 128,
      drawsegs = [], vissprites = [hidden_sprite, imp_sprite],
      viewwidth = 320, viewheight = 200, centeryfrac = 10000000, viewz = 0x200000,
      weapon_psp = no_weapon \<rparr>"

subsection \<open>The serializer's buffer\<close>

text \<open>Nothing was stored outside the array and \<open>offset\<close> is the number of bytes stored.\<close>

definition buf_wf :: "sbuf \<Rightarrow> bool" where
  "buf_wf b = (offset b = int (length (content b)) \<and> \<not> oob b)"

subsection \<open>Messages, schedules and sample worlds\<close>

definition pending :: "rd_event list \<Rightarrow> bool" where
  "pending es = (case es of NoData # _ \<Rightarrow> False | _ \<Rightarrow> True)"

definition msg_header :: "uint32 \<Rightarrow> uint32 \<Rightarrow> string" where
  "msg_header msg_type payload_len = u32_bytes msg_type @ u32_bytes payload_len"

definition idle_world :: world where
  "idle_world =
    \<lparr> g_socket_fd = 5, fd_open = True, rx = [], tx = [], wsched = [],
      socket_ret = 5, connect_ret = 0, malloc_ok = True \<rparr>"

definition shutdown_world :: world where
  "shutdown_world = idle_world\<lparr>rx := [Data (msg_header MSG_SHUTDOWN 0)]\<rparr>"

definition oversize_world :: world where
  "oversize_world = idle_world\<lparr>rx := [Data (msg_header 7 65536), Data ''0123456789abcdef'']\<rparr>"

definition init_cut_world :: world where
  "init_cut_world =
    idle_world\<lparr>g_socket_fd := - 1, fd_open := False, rx := [Data (msg_header MSG_INIT_COMPLETE 4)]\<rparr>"

definition wrong_init_world :: world where
  "wrong_init_world =
    idle_world\<lparr>g_socket_fd := - 1, fd_open := False, rx := [Data (msg_header MSG_KEY_EVENT 0)]\<rparr>"

definition key_event_json :: "bool \<Rightarrow> int32 \<Rightarrow> string" where
  \<open>key_event_json p n =
    ''{"pressed": '' @ (if p then ''true'' else ''false'') @ '', "key": '' @ fmt_d n @ ''}''\<close>

text \<open>The decimal number that stands behind \<open>"key":\<close> in a payload, 0 when there is none.\<close>

definition key_number :: "string \<Rightarrow> int" where
  \<open>key_number payload =
    (case strstr (c_string payload) ''"key":'' of
       None \<Rightarrow> 0
     | Some key_str \<Rightarrow>
         atoi_value (dropWhile (\<lambda>c. c = CHR '' '' \<or> c = CHR 0x09) (drop 6 key_str)))\<close>

definition big_key_payload :: string where
  \<open>big_key_payload = ''{"pressed": true, "key": 9223372036854775905}''\<close>

definition key_world :: "int32 \<Rightarrow> world" where
  "key_world n =
    idle_world\<lparr>rx := [Data (msg_header MSG_KEY_EVENT (word_of_nat (length (key_event_json True n)))),
                      Data (key_event_json True n)]\<rparr>"

definition big_key_world :: world where
  "big_key_world =
    idle_world\<lparr>rx := [Data (msg_header MSG_KEY_EVENT (word_of_nat (length big_key_payload))),
                      Data big_key_payload]\<rparr>"

definition small_key_payload :: string where
  \<open>small_key_payload = ''{"pressed": false, "key": -9223372036854775905}''\<close>

definition small_key_world :: world where
  "small_key_world =
    idle_world\<lparr>rx := [Data (msg_header MSG_KEY_EVENT (word_of_nat (length small_key_payload))),
                      Data small_key_payload]\<rparr>"

definition accepts :: "wr_event \<Rightarrow> bool" where
  "accepts e = (case e of Accept k \<Rightarrow> 0 < k | WrFail err \<Rightarrow> False)"






subsection \<open>The frame hook: what a tick sends, sample ticks and bridges\<close>

definition frame_message :: "tick \<Rightarrow> bridge \<Rightarrow> string" where
  "frame_message t b =
    (let json = extract_vectors_to_json (render t) (g_frame_count b);
         len = nat (offset json)
     in msg_header MSG_FRAME_DATA (word_of_nat len) @ take len (content json))"

definition is_running :: "outcome \<Rightarrow> bool" where
  "is_running out = (case out of Exited c b \<Rightarrow> False | Running b \<Rightarrow> True)"

definition plain_keys :: "uint32 \<Rightarrow> byte" where
  "plain_keys keyCode = ucast keyCode"

definition quiet_tick :: tick where
  "quiet_tick =
    \<lparr> render = scene, sdl_events = [], current_time = 1000, surface_ok = True, savebmp_ok = True \<rparr>"

definition busy_tick :: tick where
  "busy_tick = quiet_tick\<lparr>sdl_events := [SDL_KEYDOWN 97, SDL_OTHER, SDL_KEYUP 97, SDL_KEYDOWN 98]\<rparr>"

definition key_pending_bridge :: bridge where
  "key_pending_bridge =
    \<lparr> sock = key_world 97, g_frame_count = 0, s_KeyQueue = replicate 16 0,
      s_KeyQueueWriteIndex = 0, s_KeyQueueReadIndex = 0, last_screenshot_time = 0 \<rparr>"

definition shutdown_bridge :: bridge where
  "shutdown_bridge = key_pending_bridge\<lparr>sock := shutdown_world\<rparr>"

section \<open>Properties\<close>

subsection \<open>Signed 32-bit arithmetic without wrap-around\<close>

lemma sint_of_int32:
  "- (2 ^ 31) \<le> x \<Longrightarrow> x < 2 ^ 31 \<Longrightarrow> sint (word_of_int x :: 32 word) = x"
  by (simp add: sint_sbintrunc' signed_take_bit_int_eq_self)

lemma sint_sub32:
  "- (2 ^ 31) \<le> sint a - sint b \<Longrightarrow> sint a - sint b < 2 ^ 31 \<Longrightarrow>
   sint (a - b :: 32 word) = sint a - sint b"
  by (simp add: sint_word_ariths signed_take_bit_int_eq_self)

lemma sint_add32:
  "- (2 ^ 31) \<le> sint a + sint b \<Longrightarrow> sint a + sint b < 2 ^ 31 \<Longrightarrow>
   sint (a + b :: 32 word) = sint a + sint b"
  by (simp add: sint_word_ariths signed_take_bit_int_eq_self)

lemma sint_mul32:
  "- (2 ^ 31) \<le> sint a * sint b \<Longrightarrow> sint a * sint b < 2 ^ 31 \<Longrightarrow>
   sint (a * b :: 32 word) = sint a * sint b"
  by (simp add: sint_word_ariths signed_take_bit_int_eq_self)

lemma sint_c_div:
  "- (2 ^ 31) \<le> sint a sdiv sint b \<Longrightarrow> sint a sdiv sint b < 2 ^ 31 \<Longrightarrow>
   sint (c_div a b) = sint a sdiv sint b"
  by (simp add: c_div_def sint_of_int32)

lemma sdiv_nonneg: "0 \<le> a \<Longrightarrow> 0 < b \<Longrightarrow> (a::int) sdiv b = a div b"
  by (simp add: signed_divide_int_def sgn_if)

subsection \<open>The depth bucket\<close>

lemma bucket_product:
  fixes s :: "32 word"
  assumes "0x800 \<le> sint s" "sint s \<le> 0x20000"
  shows "sint ((s - 0x800) * 999) = (sint s - 0x800) * 999"
proof -
  have a: "sint (s - 0x800) = sint s - 0x800"
    using assms sint_sub32 [of s "0x800"] by simp
  have "sint ((s - 0x800) * 999) = sint (s - 0x800) * sint (999 :: 32 word)"
    by (rule sint_mul32) (use a assms in simp_all)
  then show ?thesis
    using a by simp
qed

lemma bucket_quotient:
  assumes "0x800 \<le> sint s" "sint s \<le> 0x20000"
  shows "sint (c_div ((s - 0x800) * 999) (0x20000 - 0x800)) = ((sint s - 0x800) * 999) div 129024"
proof -
  note b = bucket_product [OF assms]
  have p0: "0 \<le> (sint s - 0x800) * 999" using assms by simp
  have q0: "0 \<le> ((sint s - 0x800) * 999) div 129024"
    using p0 by (simp add: pos_imp_zdiv_nonneg_iff)
  have q1: "((sint s - 0x800) * 999) div 129024 \<le> 999" using assms by simp
  have d: "sint (0x20000 - 0x800 :: 32 word) = 129024" by simp
  have e: "sint ((s - 0x800) * 999) sdiv sint (0x20000 - 0x800 :: 32 word)
            = ((sint s - 0x800) * 999) div 129024"
    unfolding b d using p0 by (simp add: sdiv_nonneg)
  have "sint (c_div ((s - 0x800) * 999) (0x20000 - 0x800))
          = sint ((s - 0x800) * 999) sdiv sint (0x20000 - 0x800 :: 32 word)"
    by (rule sint_c_div) (use e q0 q1 in simp_all)
  then show ?thesis using e by simp
qed

lemma distance_formula:
  assumes "0x800 \<le> sint s" "sint s \<le> 0x20000"
  shows "sint (distance_of s) = 999 - ((sint s - 0x800) * 999) div (0x20000 - 0x800)"
proof -
  let ?q = "c_div ((s - 0x800) * 999) (0x20000 - 0x800)"
  have q: "sint ?q = ((sint s - 0x800) * 999) div 129024"
    by (rule bucket_quotient [OF assms])
  have q0: "0 \<le> sint ?q" unfolding q using assms by (simp add: pos_imp_zdiv_nonneg_iff)
  have q1: "sint ?q \<le> 999" unfolding q using assms by simp
  have "sint (999 - ?q) = sint (999 :: 32 word) - sint ?q"
    by (rule sint_sub32) (use q0 q1 in simp_all)
  then have r: "sint (999 - ?q) = 999 - sint ?q" by simp
  have n1: "\<not> (0x20000 <s s)" using assms by (simp add: word_sless_alt)
  have n2: "\<not> (s <s 0x800)" using assms by (simp add: word_sless_alt)
  have n3: "\<not> (999 - ?q <s 0)" using r q1 by (simp add: word_sless_alt)
  have n4: "\<not> (999 <s 999 - ?q)" using r q0 by (simp add: word_sless_alt)
  have "distance_of s = 999 - ?q"
    unfolding distance_of_def Let_def using n1 n2 n3 n4 by simp
  then show ?thesis using r q by simp
qed

lemma distance_near: "0x20000 <s s \<Longrightarrow> distance_of s = 0"
  by (simp add: distance_of_def word_sless_alt)

lemma distance_far: "s <s 0x800 \<Longrightarrow> distance_of s = 999"
  by (auto simp add: distance_of_def Let_def word_sless_alt)

lemma distance_range: "in_bucket (distance_of s)"
proof -
  consider "0x20000 <s s" | "s <s 0x800" | "0x800 \<le> sint s" "sint s \<le> 0x20000"
    unfolding word_sless_alt by fastforce
  then show ?thesis
  proof cases
    case 1
    then show ?thesis by (simp add: distance_near in_bucket_def)
  next
    case 2
    then show ?thesis by (simp add: distance_far in_bucket_def)
  next
    case 3
    have "0 \<le> ((sint s - 0x800) * 999) div 129024"
      using 3 by (simp add: pos_imp_zdiv_nonneg_iff)
    moreover have "((sint s - 0x800) * 999) div 129024 \<le> 999" using 3 by simp
    ultimately show ?thesis using distance_formula [OF 3] by (simp add: in_bucket_def)
  qed
qed

text \<open>
  C7. The depth bucket of a scale \<open>s\<close> is 0 above \<open>0x20000\<close>, 999 below \<open>0x800\<close> (a
  non-positive scale is replaced by 1 first and lands there too), and in between it is
  \<open>999 - ((s - 0x800) \<cdot> 999) / (0x20000 - 0x800)\<close> with integer division; the product
  needs no more than 31 bits, so the 32-bit multiplication is exact and the clamps to
  \<open>[0, 999]\<close> never fire. \<open>0x20000\<close> gives 0, \<open>0x800\<close> gives 999, \<open>0x10400\<close> gives 500.
\<close>

theorem depth_bucket:
  "(0x20000 < sint s \<longrightarrow> distance_of s = 0) \<and>
   (sint s < 0x800 \<longrightarrow> distance_of s = 999 \<and> distance_of (fix_scale s) = 999) \<and>
   (0x800 \<le> sint s \<and> sint s \<le> 0x20000 \<longrightarrow>
      sint (distance_of s) = 999 - ((sint s - 0x800) * 999) div (0x20000 - 0x800) \<and>
      0 \<le> (sint s - 0x800) * 999 \<and> (sint s - 0x800) * 999 < 2 ^ 31 \<and>
      sint ((s - 0x800) * 999) = (sint s - 0x800) * 999 \<and>
      fix_scale s = s) \<and>
   0 \<le> sint (distance_of s) \<and> sint (distance_of s) \<le> 999 \<and>
   distance_of 0x20000 = 0 \<and> distance_of 0x800 = 999 \<and> distance_of 0x10400 = 500"
proof -
  have near: "0x20000 < sint s \<longrightarrow> distance_of s = 0"
    by (simp add: distance_near word_sless_alt)
  have far: "sint s < 0x800 \<longrightarrow> distance_of s = 999 \<and> distance_of (fix_scale s) = 999"
  proof
    assume a: "sint s < 0x800"
    then have "s <s 0x800" by (simp add: word_sless_alt)
    moreover have "fix_scale s <s 0x800"
      using a by (simp add: fix_scale_def word_sless_alt word_sle_eq)
    ultimately show "distance_of s = 999 \<and> distance_of (fix_scale s) = 999"
      by (simp add: distance_far)
  qed
  have mid: "0x800 \<le> sint s \<and> sint s \<le> 0x20000 \<longrightarrow>
      sint (distance_of s) = 999 - ((sint s - 0x800) * 999) div (0x20000 - 0x800) \<and>
      0 \<le> (sint s - 0x800) * 999 \<and> (sint s - 0x800) * 999 < 2 ^ 31 \<and>
      sint ((s - 0x800) * 999) = (sint s - 0x800) * 999 \<and>
      fix_scale s = s"
  proof
    assume a: "0x800 \<le> sint s \<and> sint s \<le> 0x20000"
    then have a1: "0x800 \<le> sint s" and a2: "sint s \<le> 0x20000" by simp_all
    have "fix_scale s = s" using a1 by (simp add: fix_scale_def word_sle_eq)
    moreover have "0 \<le> (sint s - 0x800) * 999" using a1 by simp
    moreover have "(sint s - 0x800) * 999 < 2 ^ 31" using a2 by simp
    ultimately show "sint (distance_of s) = 999 - ((sint s - 0x800) * 999) div (0x20000 - 0x800) \<and>
      0 \<le> (sint s - 0x800) * 999 \<and> (sint s - 0x800) * 999 < 2 ^ 31 \<and>
      sint ((s - 0x800) * 999) = (sint s - 0x800) * 999 \<and>
      fix_scale s = s"
      using distance_formula [OF a1 a2] bucket_product [OF a1 a2] by simp
  qed
  have rng: "0 \<le> sint (distance_of s) \<and> sint (distance_of s) \<le> 999"
    using distance_range [of s] by (simp add: in_bucket_def)
  have pts: "distance_of 0x20000 = 0 \<and> distance_of 0x800 = 999 \<and> distance_of 0x10400 = 500"
    by (simp add: distance_of_def c_div_def word_sless_alt signed_divide_int_def)
  show ?thesis using near far mid rng pts by blast
qed

theorem depth_bucket_witness:
  "distance_of 0x30000 = 0 \<and>
   distance_of 0x100 = 999 \<and> distance_of (fix_scale (- 5)) = 999 \<and>
   sint (distance_of 0x18000) = 999 - ((0x18000 - 0x800) * 999) div (0x20000 - 0x800) \<and>
   sint (distance_of 0x18000) = 254"
  using depth_bucket [of "0x30000"] depth_bucket [of "0x100"] depth_bucket [of "- 5"]
    depth_bucket [of "0x18000"]
  by simp

subsection \<open>Ranges of the sampled values\<close>

lemma sint_minus_one:
  assumes "1 \<le> sint (v :: 32 word)"
  shows "sint (v - 1) = sint v - 1"
proof -
  have "sint (v - 1) = sint v - sint (1 :: 32 word)"
    by (rule sint_sub32) (use assms sint_lt [of v] in simp_all)
  then show ?thesis by simp
qed

lemma clamp_y_range:
  assumes "1 \<le> sint (viewheight r)"
  shows "in_rows r (clamp_y r y)"
  unfolding clamp_y_def Let_def in_rows_def
  using assms sint_minus_one [OF assms]
  by (auto simp: word_sless_alt word_sle_eq)

lemma clamp_y_mono:
  assumes "1 \<le> sint (viewheight r)" "sint a \<le> sint b"
  shows "sint (clamp_y r a) \<le> sint (clamp_y r b)"
  unfolding clamp_y_def Let_def
  using assms sint_minus_one [OF assms(1)]
  by (auto simp: word_sless_alt word_sle_eq)

lemma wall_tuple_ok:
  assumes "1 \<le> sint (viewheight r)" "wall_tuple r ds = Some t"
  shows "wall_ok r t"
  using assms(2) clamp_y_range [OF assms(1)] distance_range
  unfolding wall_tuple_def Let_def wall_ok_def
  by (auto simp: word_sless_alt word_sle_eq split: option.splits if_splits)

lemma half_sum:
  assumes "0 \<le> sint a" "0 \<le> sint b" "sint a < sint w" "sint b < sint w" "sint w \<le> 2 ^ 30"
  shows "sint (c_div (a + b) 2) = (sint a + sint b) div 2"
proof -
  have s: "sint (a + b) = sint a + sint b"
    by (rule sint_add32) (use assms in simp_all)
  have "sint (c_div (a + b) 2) = sint (a + b) sdiv sint (2 :: 32 word)"
    by (rule sint_c_div) (use s assms in \<open>simp_all add: sdiv_nonneg\<close>)
  then show ?thesis using s assms by (simp add: sdiv_nonneg)
qed

lemma sprite_height_value:
  assumes "in_rows r a" "in_rows r b"
  shows "sint (if b - a <s 5 then 5 else b - a) = max 5 (sint b - sint a)"
proof -
  have "sint (b - a) = sint b - sint a"
    by (rule sint_sub32) (use assms sint_lt [of "viewheight r"] in \<open>simp_all add: in_rows_def\<close>)
  then show ?thesis by (simp add: word_sless_alt)
qed

lemma entity_tuple_ok:
  assumes vh: "1 \<le> sint (viewheight r)" and vw: "sint (viewwidth r) \<le> 2 ^ 30"
    and e: "entity_tuple r vis = Some t"
  shows "entity_ok r t"
proof -
  let ?s = "fix_scale (vis_scale vis)"
  let ?yt = "clamp_y r (project_y r (gzt vis) ?s)"
  let ?yb = "clamp_y r (project_y r (gz vis) ?s)"
  from e have acc: "0 \<le> sint (vis_x1 vis)" "0 \<le> sint (vis_x2 vis)"
      "sint (vis_x1 vis) < sint (viewwidth r)" "sint (vis_x2 vis) < sint (viewwidth r)"
    by (auto simp: entity_tuple_def Let_def word_sless_alt word_sle_eq split: if_splits)
  from e acc have t: "t = (c_div (vis_x1 vis + vis_x2 vis) 2, ?yt, ?yb,
        (if ?yb - ?yt <s 5 then 5 else ?yb - ?yt), mobjtype vis, distance_of ?s)"
    by (auto simp: entity_tuple_def Let_def word_sless_alt word_sle_eq split: if_splits)
  have x: "sint (c_div (vis_x1 vis + vis_x2 vis) 2) = (sint (vis_x1 vis) + sint (vis_x2 vis)) div 2"
    by (rule half_sum [OF acc vw])
  have yt: "in_rows r ?yt" and yb: "in_rows r ?yb" by (rule clamp_y_range [OF vh])+
  have h: "sint (if ?yb - ?yt <s 5 then 5 else ?yb - ?yt) = max 5 (sint ?yb - sint ?yt)"
    by (rule sprite_height_value [OF yt yb])
  show ?thesis
    unfolding t entity_ok_def using x acc yt yb h distance_range [of ?s]
    by (simp del: max.absorb1 max.absorb2 max.absorb3 max.absorb4)
qed



lemma sint_scast64: "sint (scast (a :: 32 word) :: 64 word) = sint a"
  by (rule sint_up_scast) (simp add: is_up)

lemma ucast_down_sint: "(ucast (w :: 64 word) :: 32 word) = word_of_int (sint w)"
proof -
  have e: "(ucast :: 64 word \<Rightarrow> 32 word) = scast"
    by (rule down_cast_same) (simp add: is_down)
  show ?thesis unfolding e by (rule scast_eq)
qed

lemma product_in_64:
  fixes a b :: "32 word"
  shows "- (2 ^ 63) \<le> sint a * sint b \<and> sint a * sint b < 2 ^ 63"
proof -
  have a: "\<bar>sint a\<bar> \<le> 2 ^ 31" using sint_ge [of a] sint_lt [of a] by simp
  have b: "\<bar>sint b\<bar> \<le> 2 ^ 31" using sint_ge [of b] sint_lt [of b] by simp
  have "\<bar>sint a * sint b\<bar> = \<bar>sint a\<bar> * \<bar>sint b\<bar>" by (simp add: abs_mult)
  also have "\<dots> \<le> 2 ^ 31 * 2 ^ 31" by (rule mult_mono) (use a b in simp_all)
  finally have "\<bar>sint a * sint b\<bar> \<le> 2 ^ 62" by simp
  then have "- (2 ^ 62) \<le> sint a * sint b \<and> sint a * sint b \<le> 2 ^ 62"
    by (simp add: abs_le_iff)
  then show ?thesis by simp
qed

lemma FixedMul_exact:
  assumes "- (2 ^ 31) \<le> (sint a * sint b) div 2 ^ 16" "(sint a * sint b) div 2 ^ 16 < 2 ^ 31"
  shows "sint (FixedMul a b) = (sint a * sint b) div 2 ^ 16"
proof -
  let ?p = "(scast a :: 64 word) * (scast b :: 64 word)"
  have "sint ?p = signed_take_bit 63 (sint (scast a :: 64 word) * sint (scast b :: 64 word))"
    by (simp only: sint_word_mult) simp
  then have "sint ?p = signed_take_bit 63 (sint a * sint b)"
    by (simp only: sint_scast64)
  then have p: "sint ?p = sint a * sint b"
    using product_in_64 [of a b] by (simp add: signed_take_bit_int_eq_self)
  have q: "sint (signed_drop_bit 16 ?p) = (sint a * sint b) div 2 ^ 16"
    by (simp only: sint_signed_drop_bit_eq p drop_bit_eq_div)
  have "FixedMul a b = word_of_int (sint (signed_drop_bit 16 ?p))"
    by (simp only: FixedMul_def FRACBITS_def ucast_down_sint)
  then have "FixedMul a b = word_of_int ((sint a * sint b) div 2 ^ 16)"
    by (simp only: q)
  then show ?thesis
    using sint_of_int32 [OF assms] by simp
qed

lemma project_y_exact:
  assumes "projects_exactly r h s"
  shows "sint (project_y r h s)
           = (sint (centeryfrac r) - ((sint h - sint (viewz r)) * sint s) div 2 ^ 16) div 2 ^ 16"
proof -
  let ?d = "sint h - sint (viewz r)"
  let ?m = "(?d * sint s) div 2 ^ 16"
  from assms have d: "- (2 ^ 31) \<le> ?d" "?d < 2 ^ 31"
    and m: "- (2 ^ 31) \<le> ?m" "?m < 2 ^ 31"
    and y: "- (2 ^ 31) \<le> sint (centeryfrac r) - ?m" "sint (centeryfrac r) - ?m < 2 ^ 31"
    by (simp_all add: projects_exactly_def Let_def)
  have sd: "sint (h - viewz r) = ?d" by (rule sint_sub32 [OF d])
  have fm: "sint (FixedMul (h - viewz r) s) = ?m"
    using FixedMul_exact [of "h - viewz r" s] m unfolding sd by simp
  have "sint (centeryfrac r - FixedMul (h - viewz r) s)
          = sint (centeryfrac r) - sint (FixedMul (h - viewz r) s)"
    by (rule sint_sub32) (use y fm in simp_all)
  then show ?thesis
    by (simp add: project_y_def asr_def FRACBITS_def sint_signed_drop_bit_eq drop_bit_eq_div fm)
qed

lemma fix_scale_pos: "0 < sint (fix_scale s)"
  by (simp add: fix_scale_def word_sle_eq)

lemma sprite_order:
  assumes vh: "1 \<le> sint (viewheight r)" and ex: "sprite_projects_exactly r vis"
  shows "sint (clamp_y r (project_y r (gzt vis) (fix_scale (vis_scale vis))))
          \<le> sint (clamp_y r (project_y r (gz vis) (fix_scale (vis_scale vis))))"
proof -
  let ?s = "fix_scale (vis_scale vis)"
  define mt where "mt = ((sint (gzt vis) - sint (viewz r)) * sint ?s) div 2 ^ 16"
  define mb where "mb = ((sint (gz vis) - sint (viewz r)) * sint ?s) div 2 ^ 16"
  from ex have o: "sint (gz vis) \<le> sint (gzt vis)"
    and pt: "projects_exactly r (gzt vis) ?s" and pb: "projects_exactly r (gz vis) ?s"
    by (simp_all add: sprite_projects_exactly_def)
  have "(sint (gz vis) - sint (viewz r)) * sint ?s \<le> (sint (gzt vis) - sint (viewz r)) * sint ?s"
    by (rule mult_right_mono) (use o fix_scale_pos [of "vis_scale vis"] in simp_all)
  then have "mb \<le> mt"
    unfolding mb_def mt_def by (rule zdiv_mono1) simp
  then have "sint (centeryfrac r) - mt \<le> sint (centeryfrac r) - mb" by simp
  then have "(sint (centeryfrac r) - mt) div 2 ^ 16 \<le> (sint (centeryfrac r) - mb) div 2 ^ 16"
    by (rule zdiv_mono1) simp
  then have "sint (project_y r (gzt vis) ?s) \<le> sint (project_y r (gz vis) ?s)"
    unfolding mt_def mb_def by (simp only: project_y_exact [OF pt] project_y_exact [OF pb])
  then show ?thesis by (rule clamp_y_mono [OF vh])
qed

lemmas sampler_defs = wall_tuple_def entity_tuple_def fix_scale_def distance_of_def clamp_y_def
  project_y_def FixedMul_def asr_def FRACBITS_def c_div_def signed_divide_int_def
  word_sless_alt word_sle_eq Let_def

lemma scene_walls: "emitted_walls scene = [(10, 56, 184, 30, 56, 184, 508, 3)]"
  by (simp add: emitted_walls_def scene_def room_wall_def map_filter_simps sampler_defs)

lemma scene_entities: "emitted_entities scene = [(15, 128, 184, 56, 3, 508)]"
  by (simp add: emitted_entities_def scene_def imp_sprite_def map_filter_simps sampler_defs)

lemma in_map_filter: "t \<in> set (List.map_filter f xs) \<longleftrightarrow> (\<exists>x \<in> set xs. f x = Some t)"
  by (induction xs) (auto split: option.splits)

text \<open>
  C8, as the code has it. With at least one pixel row and a view at most \<open>2\<^sup>3\<^sup>0\<close> columns wide,
  every wall tuple that is emitted has \<open>0 \<le> x1 \<le> x2 < viewwidth\<close>, its four rows in
  \<open>[0, viewheight - 1]\<close> and its distance in \<open>[0, 999]\<close>; every entity that is emitted has
  \<open>0 \<le> x < viewwidth\<close>, both rows in \<open>[0, viewheight - 1]\<close>, \<open>height = max(5, y_bottom - y_top)\<close>,
  so \<open>height \<ge> 5\<close>, and its distance in \<open>[0, 999]\<close>. The two rows of an entity are clamped
  one by one and nothing orders them: \<open>y_top \<le> y_bottom\<close> holds for a sprite with
  \<open>gz \<le> gzt\<close> whose two projections stay inside 32 bits, and can fail otherwise.
\<close>

theorem sampler_ranges:
  assumes "1 \<le> sint (viewheight r)" "sint (viewwidth r) \<le> 2 ^ 30"
  shows "(\<forall>t \<in> set (emitted_walls r). wall_ok r t) \<and>
         (\<forall>t \<in> set (emitted_entities r). entity_ok r t) \<and>
         (\<forall>vis \<in> set (take (MAXVISSPRITES r) (vissprites r)). \<forall>t.
            entity_tuple r vis = Some t \<and> sprite_projects_exactly r vis \<longrightarrow> top_above_bottom t)"
proof -
  have w: "\<forall>t \<in> set (emitted_walls r). wall_ok r t"
    using wall_tuple_ok [OF assms(1)] by (auto simp: emitted_walls_def in_map_filter)
  have e: "\<forall>t \<in> set (emitted_entities r). entity_ok r t"
    using entity_tuple_ok [OF assms] by (auto simp: emitted_entities_def in_map_filter)
  have o: "top_above_bottom t" if "entity_tuple r vis = Some t" "sprite_projects_exactly r vis" for vis t
  proof -
    from that(1) have "t = (c_div (vis_x1 vis + vis_x2 vis) 2,
        clamp_y r (project_y r (gzt vis) (fix_scale (vis_scale vis))),
        clamp_y r (project_y r (gz vis) (fix_scale (vis_scale vis))),
        (let h = clamp_y r (project_y r (gz vis) (fix_scale (vis_scale vis)))
                 - clamp_y r (project_y r (gzt vis) (fix_scale (vis_scale vis)))
         in if h <s 5 then 5 else h),
        mobjtype vis, distance_of (fix_scale (vis_scale vis)))"
      by (auto simp: entity_tuple_def Let_def split: if_splits)
    then show ?thesis
      using sprite_order [OF assms(1) that(2)] by (simp add: top_above_bottom_def)
  qed
  show ?thesis using w e o by blast
qed

theorem sampler_ranges_witness:
  "1 \<le> sint (viewheight scene) \<and> sint (viewwidth scene) \<le> 2 ^ 30 \<and>
   emitted_walls scene = [(10, 56, 184, 30, 56, 184, 508, 3)] \<and>
   wall_ok scene (10, 56, 184, 30, 56, 184, 508, 3) \<and>
   emitted_entities scene = [(15, 128, 184, 56, 3, 508)] \<and>
   entity_ok scene (15, 128, 184, 56, 3, 508) \<and>
   imp_sprite \<in> set (take (MAXVISSPRITES scene) (vissprites scene)) \<and>
   entity_tuple scene imp_sprite = Some (15, 128, 184, 56, 3, 508) \<and>
   sprite_projects_exactly scene imp_sprite \<and>
   top_above_bottom (15, 128, 184, 56, 3, 508)"
proof -
  have h1: "1 \<le> sint (viewheight scene)" by (simp add: scene_def)
  have h2: "sint (viewwidth scene) \<le> 2 ^ 30" by (simp add: scene_def)
  have m: "imp_sprite \<in> set (take (MAXVISSPRITES scene) (vissprites scene))"
    by (simp add: scene_def)
  have t: "entity_tuple scene imp_sprite = Some (15, 128, 184, 56, 3, 508)"
    by (simp add: scene_def imp_sprite_def sampler_defs)
  have x: "sprite_projects_exactly scene imp_sprite"
    by (simp add: sprite_projects_exactly_def projects_exactly_def scene_def imp_sprite_def
        fix_scale_def word_sle_eq Let_def)
  show ?thesis
    using sampler_ranges [OF h1 h2] h1 h2 m t x scene_walls scene_entities by auto
qed

text \<open>
  A sprite with \<open>gz \<le> gzt\<close>, 1027 units tall and seen at scale 32: the product for its top
  leaves 32 bits, the top row is clamped to 199 and the bottom row is 100.
\<close>

theorem sprite_order_counterexample:
  "1 \<le> sint (viewheight tall_scene) \<and> sint (viewwidth tall_scene) \<le> 2 ^ 30 \<and>
   sint (gz tall_sprite) \<le> sint (gzt tall_sprite) \<and>
   emitted_entities tall_scene = [(15, 199, 100, 5, 3, 0)] \<and>
   \<not> top_above_bottom (15, 199, 100, 5, 3, 0)"
  by (simp add: emitted_entities_def tall_scene_def tall_sprite_def map_filter_simps sampler_defs
      top_above_bottom_def)

subsection \<open>The serializer\<close>

lemma snprintf_offset: "offset (snprintf b s) = offset b + int (length s)"
  by (simp add: snprintf_def Let_def)

lemma snprintf_fits:
  assumes "buf_wf b" "int (length (content b)) + int (length s) < sizeof_json_buf"
  shows "snprintf b s = \<lparr> content = content b @ s, offset = offset b + int (length s), oob = False \<rparr>"
proof -
  let ?off = "int (length (content b))"
  have off: "offset b = ?off" and no: "\<not> oob b" using assms(1) by (simp_all add: buf_wf_def)
  have sz: "(sizeof_json_buf - ?off) mod 2 ^ 64 = sizeof_json_buf - ?off"
    using assms(2) by (simp add: sizeof_json_buf_def)
  have pos: "sizeof_json_buf - ?off \<noteq> 0" using assms(2) by simp
  have k: "min (int (length s)) (sizeof_json_buf - ?off - 1) = int (length s)"
    using assms(2) by simp
  show ?thesis
    unfolding snprintf_def Let_def off sz k using pos no assms(2) by simp
qed

lemma snprintf_fits_wf:
  assumes "buf_wf b" "int (length (content b)) + int (length s) < sizeof_json_buf"
  shows "buf_wf (snprintf b s)" "content (snprintf b s) = content b @ s"
  using assms by (simp_all add: snprintf_fits buf_wf_def)

lemma wall_loop_fits:
  assumes "buf_wf b" "int (length (content b)) + int (length (walls_text r dss n)) < sizeof_json_buf"
  shows "buf_wf (wall_loop r dss n b) \<and> content (wall_loop r dss n b) = content b @ walls_text r dss n"
  using assms
proof (induction dss arbitrary: n b)
  case Nil
  then show ?case by simp
next
  case (Cons ds dss)
  show ?case
  proof (cases "wall_tuple r ds")
    case None
    then show ?thesis using Cons by simp
  next
    case (Some t)
    let ?sep = "if 0 < n then '','' else []"
    let ?b1 = "if 0 < n then snprintf b '','' else b"
    let ?b2 = "snprintf ?b1 (fmt_wall t)"
    from Cons.prems(2) Some
    have len: "int (length (content b)) + int (length ?sep) + int (length (fmt_wall t))
                 + int (length (walls_text r dss (n + 1))) < sizeof_json_buf"
      by simp
    have b1: "buf_wf ?b1 \<and> content ?b1 = content b @ ?sep"
    proof (cases "0 < n")
      case True
      with len have "int (length (content b)) + int (length '','') < sizeof_json_buf" by simp
      from snprintf_fits_wf [OF Cons.prems(1) this] True show ?thesis by simp
    next
      case False
      then show ?thesis using Cons.prems(1) by simp
    qed
    have b2: "buf_wf ?b2 \<and> content ?b2 = content b @ ?sep @ fmt_wall t"
      using b1 len snprintf_fits_wf [of ?b1 "fmt_wall t"] by simp
    have "buf_wf (wall_loop r dss (n + 1) ?b2) \<and>
          content (wall_loop r dss (n + 1) ?b2) = content ?b2 @ walls_text r dss (n + 1)"
      by (rule Cons.IH) (use b2 len in simp_all)
    then show ?thesis using Some b2 by (simp add: Let_def)
  qed
qed

lemma sprite_loop_fits:
  assumes "buf_wf b" "int (length (content b)) + int (length (sprites_text r vs i)) < sizeof_json_buf"
  shows "buf_wf (sprite_loop r vs i b) \<and> content (sprite_loop r vs i b) = content b @ sprites_text r vs i"
  using assms
proof (induction vs arbitrary: i b)
  case Nil
  then show ?case by simp
next
  case (Cons v vs)
  show ?case
  proof (cases "entity_tuple r v")
    case None
    then show ?thesis using Cons by simp
  next
    case (Some t)
    let ?sep = "if 0 < i then '','' else []"
    let ?b1 = "if 0 < i then snprintf b '','' else b"
    let ?b2 = "snprintf ?b1 (fmt_entity t)"
    from Cons.prems(2) Some
    have len: "int (length (content b)) + int (length ?sep) + int (length (fmt_entity t))
                 + int (length (sprites_text r vs (i + 1))) < sizeof_json_buf"
      by simp
    have b1: "buf_wf ?b1 \<and> content ?b1 = content b @ ?sep"
    proof (cases "0 < i")
      case True
      with len have "int (length (content b)) + int (length '','') < sizeof_json_buf" by simp
      from snprintf_fits_wf [OF Cons.prems(1) this] True show ?thesis by simp
    next
      case False
      then show ?thesis using Cons.prems(1) by simp
    qed
    have b2: "buf_wf ?b2 \<and> content ?b2 = content b @ ?sep @ fmt_entity t"
      using b1 len snprintf_fits_wf [of ?b1 "fmt_entity t"] by simp
    have "buf_wf (sprite_loop r vs (i + 1) ?b2) \<and>
          content (sprite_loop r vs (i + 1) ?b2) = content ?b2 @ sprites_text r vs (i + 1)"
      by (rule Cons.IH) (use b2 len in simp_all)
    then show ?thesis using Some b2 by (simp add: Let_def)
  qed
qed

lemma wall_loop_offset: "offset (wall_loop r dss n b) = offset b + int (length (walls_text r dss n))"
  by (induction dss arbitrary: n b) (auto simp: snprintf_offset Let_def split: option.splits)

lemma sprite_loop_offset: "offset (sprite_loop r vs i b) = offset b + int (length (sprites_text r vs i))"
  by (induction vs arbitrary: i b) (auto simp: snprintf_offset Let_def split: option.splits)

lemma extract_offset: "offset (extract_vectors_to_json r n) = int (length (frame_text r n))"
  by (simp add: extract_vectors_to_json_def frame_text_def Let_def snprintf_offset
      wall_loop_offset sprite_loop_offset)

lemma extract_fits:
  assumes "int (length (frame_text r n)) < sizeof_json_buf"
  shows "extract_vectors_to_json r n
          = \<lparr> content = frame_text r n, offset = int (length (frame_text r n)), oob = False \<rparr>"
proof -
  let ?h = "''{'' @ [CHR 0x22] @ ''frame'' @ [CHR 0x22] @ '':'' @ fmt_d n @ '','' @ [CHR 0x22] @ ''walls'' @ [CHR 0x22] @ '':[''"
  let ?ws = "walls_text r (take (MAXDRAWSEGS r) (drawsegs r)) 0"
  let ?m = "'']'' @ '','' @ [CHR 0x22] @ ''entities'' @ [CHR 0x22] @ '':[''"
  let ?ss = "sprites_text r (take (MAXVISSPRITES r) (vissprites r)) 0"
  let ?w = "'']'' @ '','' @ [CHR 0x22] @ ''weapon'' @ [CHR 0x22] @ '':''"
  let ?wp = "fmt_weapon (weapon_xy r)"
  let ?b0 = "\<lparr> content = [], offset = 0, oob = False \<rparr>"
  let ?b1 = "snprintf ?b0 ?h"
  let ?b2 = "wall_loop r (take (MAXDRAWSEGS r) (drawsegs r)) 0 ?b1"
  let ?b3 = "snprintf ?b2 ?m"
  let ?b4 = "sprite_loop r (take (MAXVISSPRITES r) (vissprites r)) 0 ?b3"
  let ?b5 = "snprintf ?b4 ?w"
  let ?b6 = "snprintf ?b5 ?wp"
  let ?b7 = "snprintf ?b6 ''}''"
  have ft: "frame_text r n = ?h @ ?ws @ ?m @ ?ss @ ?w @ ?wp @ ''}''"
    by (simp add: frame_text_def)
  have len: "int (length ?h) + int (length ?ws) + int (length ?m) + int (length ?ss)
              + int (length ?w) + int (length ?wp) + 1 < sizeof_json_buf"
    using assms unfolding ft by simp
  have w0: "buf_wf ?b0" by (simp add: buf_wf_def)
  have b1: "buf_wf ?b1 \<and> content ?b1 = ?h"
    using snprintf_fits_wf [of ?b0 ?h] w0 len by simp
  have b2: "buf_wf ?b2 \<and> content ?b2 = ?h @ ?ws"
    using wall_loop_fits [of ?b1 r "take (MAXDRAWSEGS r) (drawsegs r)" 0] b1 len by simp
  have b3: "buf_wf ?b3 \<and> content ?b3 = ?h @ ?ws @ ?m"
    using snprintf_fits_wf [of ?b2 ?m] b2 len by simp
  have b4: "buf_wf ?b4 \<and> content ?b4 = ?h @ ?ws @ ?m @ ?ss"
    using sprite_loop_fits [of ?b3 r "take (MAXVISSPRITES r) (vissprites r)" 0] b3 len by simp
  have b5: "buf_wf ?b5 \<and> content ?b5 = ?h @ ?ws @ ?m @ ?ss @ ?w"
    using snprintf_fits_wf [of ?b4 ?w] b4 len by simp
  have b6: "buf_wf ?b6 \<and> content ?b6 = ?h @ ?ws @ ?m @ ?ss @ ?w @ ?wp"
    using snprintf_fits_wf [of ?b5 ?wp] b5 len by simp
  have b7: "buf_wf ?b7 \<and> content ?b7 = ?h @ ?ws @ ?m @ ?ss @ ?w @ ?wp @ ''}''"
    using snprintf_fits_wf [of ?b6 "''}''"] b6 len by simp
  have e: "extract_vectors_to_json r n = ?b7"
    by (simp add: extract_vectors_to_json_def Let_def)
  have "content ?b7 = frame_text r n" using b7 ft by simp
  moreover have "offset ?b7 = int (length (frame_text r n))"
    using b7 ft by (simp add: buf_wf_def)
  moreover have "\<not> oob ?b7" using b7 by (simp add: buf_wf_def)
  ultimately show ?thesis unfolding e by simp
qed

lemma show_nat_length: "0 < k \<Longrightarrow> n < 10 ^ k \<Longrightarrow> length (show_nat n) \<le> k"
proof (induction n arbitrary: k rule: show_nat.induct)
  case (1 n)
  show ?case
  proof (cases "n < 10")
    case True
    then show ?thesis using 1(2) by (subst show_nat.simps) simp
  next
    case False
    obtain j where kj: "k = Suc j" using 1(2) by (cases k) simp_all
    have "0 < j" using False 1(3) kj by (cases j) simp_all
    note k = kj this
    have "n div 10 < 10 ^ j" using 1(3) k by (simp add: less_mult_imp_div_less mult.commute)
    then have "length (show_nat (n div 10)) \<le> j" using 1(1) False k by simp
    then show ?thesis using False k by (subst show_nat.simps) simp
  qed
qed

lemma fmt_d_length: "length (fmt_d w) \<le> 11"
proof -
  have a: "nat (- sint w) < 10 ^ 10" using sint_ge [of w] by simp
  have b: "nat (sint w) < 10 ^ 10" using sint_lt [of w] by simp
  show ?thesis
    using show_nat_length [OF _ a] show_nat_length [OF _ b] by (simp add: fmt_d_def)
qed







lemma snprintf_past_end:
  assumes "sizeof_json_buf < offset b" "offset b < 2 ^ 31"
  shows "oob (snprintf b s)"
proof -
  let ?x = "sizeof_json_buf - offset b"
  have "(?x + 2 ^ 64) mod 2 ^ 64 = ?x + 2 ^ 64"
    by (rule mod_pos_pos_trivial) (use assms in \<open>simp_all add: sizeof_json_buf_def\<close>)
  moreover have "(?x + 2 ^ 64) mod 2 ^ 64 = ?x mod 2 ^ 64" by simp
  ultimately have "(sizeof_json_buf - offset b) mod 2 ^ 64 = sizeof_json_buf - offset b + 2 ^ 64"
    by simp
  then show ?thesis
    using assms by (auto simp add: snprintf_def Let_def sizeof_json_buf_def min_def)
qed

lemma extract_past_end:
  assumes "sizeof_json_buf + 1 < offset (extract_vectors_to_json r n)"
    "offset (extract_vectors_to_json r n) < 2 ^ 31"
  shows "oob (extract_vectors_to_json r n)"
proof -
  obtain b where e: "extract_vectors_to_json r n = snprintf b ''}''"
    by (simp add: extract_vectors_to_json_def Let_def)
  have "offset b = offset (extract_vectors_to_json r n) - 1"
    unfolding e by (simp add: snprintf_offset)
  then show ?thesis
    unfolding e using assms snprintf_past_end [of b "''}''"] by (simp add: e)
qed

lemma walls_text_replicate:
  assumes "wall_tuple r ds = Some t"
  shows "length (walls_text r (replicate k ds) n)
           = k * length (fmt_wall t) + (if n = 0 then k - 1 else k)"
  using assms by (induction k arbitrary: n) (auto)

lemma room_wall_tuple: "wall_tuple flood_scene room_wall = Some (10, 56, 184, 30, 56, 184, 508, 3)"
  by (simp add: flood_scene_def room_wall_def sampler_defs)

lemma show_nat_digit: "n < 10 \<Longrightarrow> show_nat n = [digit_char n]"
  by (subst show_nat.simps) simp

lemma show_nat_step: "10 \<le> n \<Longrightarrow> show_nat n = show_nat (n div 10) @ [digit_char (n mod 10)]"
  by (subst show_nat.simps) simp

lemma digit_chars_all:
  "digit_char 0 = CHR ''0'' \<and> digit_char 1 = CHR ''1'' \<and> digit_char 2 = CHR ''2'' \<and>
   digit_char 3 = CHR ''3'' \<and> digit_char 4 = CHR ''4'' \<and> digit_char 5 = CHR ''5'' \<and>
   digit_char 6 = CHR ''6'' \<and> digit_char 7 = CHR ''7'' \<and> digit_char 8 = CHR ''8'' \<and>
   digit_char 9 = CHR ''9'' \<and> digit_char (Suc 0) = CHR ''1''"
  by code_simp

lemmas digit_chars = digit_chars_all [THEN conjunct1]
  digit_chars_all [THEN conjunct2, THEN conjunct1]
  digit_chars_all [THEN conjunct2, THEN conjunct2, THEN conjunct1]
  digit_chars_all [THEN conjunct2, THEN conjunct2, THEN conjunct2, THEN conjunct1]
  digit_chars_all [THEN conjunct2, THEN conjunct2, THEN conjunct2, THEN conjunct2, THEN conjunct1]
  digit_chars_all [THEN conjunct2, THEN conjunct2, THEN conjunct2, THEN conjunct2, THEN conjunct2,
    THEN conjunct1]
  digit_chars_all [THEN conjunct2, THEN conjunct2, THEN conjunct2, THEN conjunct2, THEN conjunct2,
    THEN conjunct2, THEN conjunct1]
  digit_chars_all [THEN conjunct2, THEN conjunct2, THEN conjunct2, THEN conjunct2, THEN conjunct2,
    THEN conjunct2, THEN conjunct2, THEN conjunct1]
  digit_chars_all [THEN conjunct2, THEN conjunct2, THEN conjunct2, THEN conjunct2, THEN conjunct2,
    THEN conjunct2, THEN conjunct2, THEN conjunct2, THEN conjunct1]
  digit_chars_all [THEN conjunct2, THEN conjunct2, THEN conjunct2, THEN conjunct2, THEN conjunct2,
    THEN conjunct2, THEN conjunct2, THEN conjunct2, THEN conjunct2, THEN conjunct1]
  digit_chars_all [THEN conjunct2, THEN conjunct2, THEN conjunct2, THEN conjunct2, THEN conjunct2,
    THEN conjunct2, THEN conjunct2, THEN conjunct2, THEN conjunct2, THEN conjunct2]

lemmas fmt_defs = fmt_d_def show_nat_digit show_nat_step digit_chars fmt_wall_def fmt_entity_def
  fmt_weapon_def

lemma room_wall_text: "fmt_wall (10, 56, 184, 30, 56, 184, 508, 3) = ''[10,56,184,30,56,184,508,3]''"
  by (simp add: fmt_defs)

lemma flood_length: "length (frame_text flood_scene 0) = 560062"
proof -
  have w: "length (walls_text flood_scene (replicate 20000 room_wall) 0) = 20000 * 27 + 19999"
    using walls_text_replicate [OF room_wall_tuple, of 20000 0] by (simp add: room_wall_text)
  have t: "take (MAXDRAWSEGS flood_scene) (drawsegs flood_scene) = replicate 20000 room_wall"
    by (simp add: flood_scene_def)
  have v: "take (MAXVISSPRITES flood_scene) (vissprites flood_scene) = []"
    by (simp add: flood_scene_def)
  have p: "weapon_xy flood_scene = None"
    by (simp add: weapon_xy_def flood_scene_def no_weapon_def)
  show ?thesis
    unfolding frame_text_def t v p using w by (simp add: fmt_defs)
qed

text \<open>
  The bound rests on the two limits. With room for 20000 draw-segments and as many walls
  in view the text of the frame would have 560062 bytes; the length that is reported is
  the length of the whole text and the later calls of \<open>snprintf\<close> store outside the array.
\<close>

lemma larger_limits_overflow:
  "sizeof_json_buf = 262144 \<and>
   offset (extract_vectors_to_json flood_scene 0) = 560062 \<and>
   oob (extract_vectors_to_json flood_scene 0)"
proof -
  have o: "offset (extract_vectors_to_json flood_scene 0) = 560062"
    by (simp add: extract_offset flood_length)
  have "oob (extract_vectors_to_json flood_scene 0)"
    by (rule extract_past_end) (simp_all add: o sizeof_json_buf_def)
  then show ?thesis using o by (simp add: sizeof_json_buf_def)
qed




lemma hidden_first_text:
  \<open>frame_text hidden_first_scene 0 =
    ''{"frame":0,"walls":[],"entities":[,{"x":15,"y_top":128,"y_bottom":184,"height":56,"type":3,"distance":508}],"weapon":{"visible":false}}''\<close>
proof -
  have h: "entity_tuple hidden_first_scene hidden_sprite = None"
    by (simp add: hidden_first_scene_def hidden_sprite_def sampler_defs)
  have e: "entity_tuple hidden_first_scene imp_sprite = Some (15, 128, 184, 56, 3, 508)"
    by (simp add: hidden_first_scene_def imp_sprite_def sampler_defs)
  have p: "weapon_xy hidden_first_scene = None"
    by (simp add: weapon_xy_def hidden_first_scene_def no_weapon_def)
  have t: "take (MAXDRAWSEGS hidden_first_scene) (drawsegs hidden_first_scene) = []"
    "take (MAXVISSPRITES hidden_first_scene) (vissprites hidden_first_scene) = [hidden_sprite, imp_sprite]"
    by (simp_all add: hidden_first_scene_def)
  show ?thesis
    unfolding frame_text_def t p by (simp add: h e fmt_defs)
qed

lemma hidden_first_invalid:
  \<open>\<not> json_valid ''{"frame":0,"walls":[],"entities":[,{"x":15,"y_top":128,"y_bottom":184,"height":56,"type":3,"distance":508}],"weapon":{"visible":false}}''\<close>
  by code_simp

lemma scene_valid:
  \<open>json_valid ''{"frame":7,"walls":[[10,56,184,30,56,184,508,3]],"entities":[{"x":15,"y_top":128,"y_bottom":184,"height":56,"type":3,"distance":508}],"weapon":{"visible":false}}''\<close>
  by code_simp

lemma sprites_text_leading_comma:
  assumes "entity_tuple r v0 = None" "entity_tuple r v1 = Some t"
  shows "sprites_text r (v0 # v1 # vs) 0 = '','' @ fmt_entity t @ sprites_text r vs 2"
  using assms by (simp add: numeral_2_eq_2)

text \<open>
  C1 asks for a valid JSON document for every combination of accepted and rejected
  vissprites, with separators between emitted elements only. The sprite loop guards its
  separator with the loop index: with the first vissprite rejected by the x-bounds filter
  and the second accepted, the entities array starts with a comma and the document is not
  valid JSON. (The wall loop counts the walls it has emitted and has no such case.)
\<close>

theorem entities_separator_bug:
  \<open>entity_tuple hidden_first_scene hidden_sprite = None \<and>
   entity_tuple hidden_first_scene imp_sprite = Some (15, 128, 184, 56, 3, 508) \<and>
   \<not> oob (extract_vectors_to_json hidden_first_scene 0) \<and>
   content (extract_vectors_to_json hidden_first_scene 0) =
    ''{"frame":0,"walls":[],"entities":[,{"x":15,"y_top":128,"y_bottom":184,"height":56,"type":3,"distance":508}],"weapon":{"visible":false}}'' \<and>
   \<not> json_valid (content (extract_vectors_to_json hidden_first_scene 0))\<close>
proof -
  have h: "entity_tuple hidden_first_scene hidden_sprite = None"
    by (simp add: hidden_first_scene_def hidden_sprite_def sampler_defs)
  have e: "entity_tuple hidden_first_scene imp_sprite = Some (15, 128, 184, 56, 3, 508)"
    by (simp add: hidden_first_scene_def imp_sprite_def sampler_defs)
  have l: "int (length (frame_text hidden_first_scene 0)) < sizeof_json_buf"
    by (simp add: hidden_first_text sizeof_json_buf_def)
  have x: "extract_vectors_to_json hidden_first_scene 0
            = \<lparr> content = frame_text hidden_first_scene 0,
                offset = int (length (frame_text hidden_first_scene 0)), oob = False \<rparr>"
    by (rule extract_fits [OF l])
  show ?thesis
    unfolding x using h e hidden_first_invalid by (simp add: hidden_first_text)
qed

subsection \<open>The socket\<close>

lemma sys_read_avail:
  assumes "0 < n" "avail es \<noteq> []"
  shows "\<exists>k es'. sys_read es n = (int k, take k (avail es), es') \<and> 0 < k \<and> k \<le> n
          \<and> k \<le> length (avail es) \<and> avail es' = drop k (avail es)"
  using assms
proof (induction es n rule: sys_read.induct)
  case (1 n)
  then show ?case by simp
next
  case (2 e es n)
  then show ?case by simp
next
  case (3 es n)
  then show ?case by simp
next
  case (4 bs es n)
  show ?case
  proof (cases "bs = []")
    case True
    then show ?thesis using 4 by simp
  next
    case False
    then have l: "0 < length bs" by simp
    show ?thesis
      apply (rule exI [of _ "min n (length bs)"])
      using False l 4(2) by (auto simp: min_def)
  qed
qed

lemma sys_read_closed:
  assumes "0 < n" "avail es = []"
  shows "fst (sys_read es n) \<le> 0"
  using assms by (induction es n rule: sys_read.induct) auto

lemma recv_exactly_avail:
  assumes "n \<le> length (avail (rx w))"
  shows "\<exists>rx'. recv_exactly w n = (0, take n (avail (rx w)), w\<lparr>rx := rx'\<rparr>)
           \<and> avail rx' = drop n (avail (rx w))"
  using assms
proof (induction n arbitrary: w rule: less_induct)
  case (less n)
  show ?case
  proof (cases "n = 0")
    case True
    then show ?thesis by (subst recv_exactly.simps) (auto intro: exI [of _ "rx w"])
  next
    case False
    then have ne: "avail (rx w) \<noteq> []" using less.prems by auto
    from sys_read_avail [OF _ ne, of n] False
    obtain k es' where r: "sys_read (rx w) n = (int k, take k (avail (rx w)), es')"
      and k: "0 < k" "k \<le> n" "k \<le> length (avail (rx w))"
      and a: "avail es' = drop k (avail (rx w))" by auto
    let ?w1 = "w\<lparr>rx := es'\<rparr>"
    have "n - k \<le> length (avail (rx ?w1))" using less.prems a k by simp
    from less.IH [OF _ this] k False
    obtain rx' where i: "recv_exactly ?w1 (n - k) = (0, take (n - k) (avail es'), ?w1\<lparr>rx := rx'\<rparr>)"
      and a': "avail rx' = drop (n - k) (avail es')" by auto
    have t: "take k (avail (rx w)) @ take (n - k) (drop k (avail (rx w))) = take n (avail (rx w))"
      using k by (metis le_add_diff_inverse take_add)
    have "recv_exactly w n = (0, take n (avail (rx w)), w\<lparr>rx := rx'\<rparr>)"
      using False r k i a t by (subst recv_exactly.simps) simp
    moreover have "avail rx' = drop n (avail (rx w))" using a' a k by simp
    ultimately show ?thesis by blast
  qed
qed

lemma recv_exactly_short:
  assumes "length (avail (rx w)) < n"
  shows "\<exists>bs rx'. recv_exactly w n = (- 1, bs, w\<lparr>rx := rx'\<rparr>)"
  using assms
proof (induction n arbitrary: w rule: less_induct)
  case (less n)
  then have n: "n \<noteq> 0" by auto
  show ?case
  proof (cases "avail (rx w) = []")
    case True
    obtain r bs es' where s: "sys_read (rx w) n = (r, bs, es')" by (cases "sys_read (rx w) n")
    then have "r \<le> 0" using sys_read_closed [OF _ True, of n] n by simp
    then have "recv_exactly w n = (- 1, [], w\<lparr>rx := es'\<rparr>)"
      using n s by (subst recv_exactly.simps) simp
    then show ?thesis by blast
  next
    case False
    from sys_read_avail [OF _ False, of n] n
    obtain k es' where r: "sys_read (rx w) n = (int k, take k (avail (rx w)), es')"
      and k: "0 < k" "k \<le> n" "k \<le> length (avail (rx w))"
      and a: "avail es' = drop k (avail (rx w))" by auto
    let ?w1 = "w\<lparr>rx := es'\<rparr>"
    have "length (avail (rx ?w1)) < n - k" using less.prems a k by simp
    from less.IH [OF _ this] k n
    obtain bs rx' where i: "recv_exactly ?w1 (n - k) = (- 1, bs, ?w1\<lparr>rx := rx'\<rparr>)" by auto
    have "recv_exactly w n = (- 1, take k (avail (rx w)) @ bs, w\<lparr>rx := rx'\<rparr>)"
      using n r k i by (subst recv_exactly.simps) simp
    then show ?thesis by blast
  qed
qed

lemma recv_exactly_frame: "\<exists>r bs rx'. recv_exactly w n = (r, bs, w\<lparr>rx := rx'\<rparr>)"
proof (cases "n \<le> length (avail (rx w))")
  case True
  then show ?thesis using recv_exactly_avail [OF True] by blast
next
  case False
  then show ?thesis using recv_exactly_short [of w n] by auto
qed

lemma recv_exactly_result: "fst (recv_exactly w n) = 0 \<or> fst (recv_exactly w n) = - 1"
proof (cases "n \<le> length (avail (rx w))")
  case True
  then show ?thesis using recv_exactly_avail [OF True] by auto
next
  case False
  then show ?thesis using recv_exactly_short [of w n] by auto
qed

lemma pending_select: "pending es \<Longrightarrow> sys_select es = (1, es)"
  by (cases es rule: sys_select.cases) (simp_all add: pending_def)

lemma length_u32_bytes [simp]: "length (u32_bytes w) = 4"
  by (simp add: u32_bytes_def)

lemma bytes_u32_bytes [simp]: "bytes_u32 (u32_bytes w) = w"
proof -
  let ?n = "unat w"
  have lt: "?n < 2 ^ 32" using unsigned_less [of w, where ?'a = nat] by simp
  have d2: "?n div 65536 = ?n div 256 div 256" by (simp add: div_mult2_eq)
  have d3: "?n div 16777216 = ?n div 256 div 256 div 256" by (simp add: div_mult2_eq)
  have m3: "?n div 256 div 256 div 256 mod 256 = ?n div 256 div 256 div 256"
    using lt by (simp add: div_mult2_eq)
  have a: "?n = ?n mod 256 + 256 * (?n div 256)" by simp
  have b: "?n div 256 = ?n div 256 mod 256 + 256 * (?n div 256 div 256)" by simp
  have c: "?n div 256 div 256 = ?n div 256 div 256 mod 256 + 256 * (?n div 256 div 256 div 256)"
    by simp
  have e: "?n mod 256 + 256 * (?n div 256 mod 256 + 256 * (?n div 256 div 256 mod 256
            + 256 * (?n div 256 div 256 div 256 mod 256))) = ?n"
    unfolding m3 using a b c by presburger
  have "foldr (\<lambda>c acc. of_char c + 256 * acc) (u32_bytes w) 0
          = ?n mod 256 + 256 * (?n div 256 mod 256 + 256 * (?n div 256 div 256 mod 256
            + 256 * (?n div 256 div 256 div 256 mod 256)))"
    unfolding u32_bytes_def by (simp only: list.map foldr.simps o_apply of_char_of power_0
        power_one_right div_by_1 d2 d3 numeral_pow [symmetric]) (simp add: d2 d3)
  then show ?thesis unfolding e by (simp add: bytes_u32_def)
qed

text \<open>Reading the two header fields of a message whose header has arrived.\<close>

lemma recv_header:
  assumes "avail (rx w) = msg_header msg_type payload_len @ rest"
  shows "\<exists>rx1 rx2. recv_exactly w 4 = (0, u32_bytes msg_type, w\<lparr>rx := rx1\<rparr>)
           \<and> recv_exactly (w\<lparr>rx := rx1\<rparr>) 4 = (0, u32_bytes payload_len, w\<lparr>rx := rx2\<rparr>)
           \<and> avail rx2 = rest"
proof -
  have l: "4 \<le> length (avail (rx w))" using assms by (simp add: msg_header_def)
  from recv_exactly_avail [OF l] obtain rx1
    where a: "recv_exactly w 4 = (0, take 4 (avail (rx w)), w\<lparr>rx := rx1\<rparr>)"
      and b: "avail rx1 = drop 4 (avail (rx w))" by blast
  have b': "avail rx1 = u32_bytes payload_len @ rest" using b assms by (simp add: msg_header_def)
  let ?w1 = "w\<lparr>rx := rx1\<rparr>"
  have l1: "4 \<le> length (avail (rx ?w1))" using b' by simp
  from recv_exactly_avail [OF l1] obtain rx2
    where c: "recv_exactly ?w1 4 = (0, take 4 (avail (rx ?w1)), ?w1\<lparr>rx := rx2\<rparr>)"
      and d: "avail rx2 = drop 4 (avail (rx ?w1))" by blast
  have "recv_exactly w 4 = (0, u32_bytes msg_type, ?w1)"
    using a assms by (simp add: msg_header_def)
  moreover have "recv_exactly ?w1 4 = (0, u32_bytes payload_len, w\<lparr>rx := rx2\<rparr>)"
    using c b' by simp
  moreover have "avail rx2 = rest" using d b' by simp
  ultimately show ?thesis by blast
qed

lemma recv_key_message:
  assumes conn: "0 \<le>s g_socket_fd w" and rdy: "pending (rx w)"
    and hdr: "avail (rx w) = msg_header msg_type payload_len @ rest"
  shows "\<exists>rx2. avail rx2 = rest \<and>
    doom_socket_recv_key w =
      (let w2 = w\<lparr>rx := rx2\<rparr> in
       if msg_type = MSG_SHUTDOWN then (- 1, None, w2)
       else if msg_type \<noteq> MSG_KEY_EVENT then
         (if 0 < payload_len \<and> payload_len < 65536 \<and> malloc_ok w then
            (case recv_exactly w2 (unat payload_len) of (r, discard_buf, w3) \<Rightarrow> (0, None, w3))
          else (0, None, w2))
       else if 256 \<le> payload_len then (- 1, None, w2)
       else case recv_exactly w2 (unat payload_len) of
         (r, payload, w3) \<Rightarrow>
           if r < 0 then (- 1, None, w3)
           else (case parse_key_event payload of
                   (pressed_val, key_val) \<Rightarrow> (1, Some (pressed_val, ucast key_val), w3)))"
proof -
  from recv_header [OF hdr] obtain rx1 rx2
    where a: "recv_exactly w 4 = (0, u32_bytes msg_type, w\<lparr>rx := rx1\<rparr>)"
      and b: "recv_exactly (w\<lparr>rx := rx1\<rparr>) 4 = (0, u32_bytes payload_len, w\<lparr>rx := rx2\<rparr>)"
      and c: "avail rx2 = rest" by blast
  have nc: "\<not> g_socket_fd w <s 0" using conn by (simp add: word_sless_alt word_sle_eq)
  have "doom_socket_recv_key w =
      (let w2 = w\<lparr>rx := rx2\<rparr> in
       if msg_type = MSG_SHUTDOWN then (- 1, None, w2)
       else if msg_type \<noteq> MSG_KEY_EVENT then
         (if 0 < payload_len \<and> payload_len < 65536 \<and> malloc_ok w then
            (case recv_exactly w2 (unat payload_len) of (r, discard_buf, w3) \<Rightarrow> (0, None, w3))
          else (0, None, w2))
       else if 256 \<le> payload_len then (- 1, None, w2)
       else case recv_exactly w2 (unat payload_len) of
         (r, payload, w3) \<Rightarrow>
           if r < 0 then (- 1, None, w3)
           else (case parse_key_event payload of
                   (pressed_val, key_val) \<Rightarrow> (1, Some (pressed_val, ucast key_val), w3)))"
    unfolding doom_socket_recv_key_def using nc pending_select [OF rdy] a b
    by (simp add: Let_def)
  then show ?thesis using c by blast
qed

text \<open>The call never touches the descriptor.\<close>

lemma recv_key_keeps_fd:
  "g_socket_fd (snd (snd (doom_socket_recv_key w))) = g_socket_fd w
   \<and> fd_open (snd (snd (doom_socket_recv_key w))) = fd_open w"
proof -
  obtain s rx0 where sel: "sys_select (rx w) = (s, rx0)" by (cases "sys_select (rx w)")
  let ?w0 = "w\<lparr>rx := rx0\<rparr>"
  obtain r1 b1 rx1 where a: "recv_exactly ?w0 4 = (r1, b1, ?w0\<lparr>rx := rx1\<rparr>)"
    using recv_exactly_frame [of ?w0 4] by blast
  let ?w1 = "w\<lparr>rx := rx1\<rparr>"
  obtain r2 b2 rx2 where b: "recv_exactly ?w1 4 = (r2, b2, ?w1\<lparr>rx := rx2\<rparr>)"
    using recv_exactly_frame [of ?w1 4] by blast
  let ?w2 = "w\<lparr>rx := rx2\<rparr>"
  obtain r3 b3 rx3 where c: "recv_exactly ?w2 (unat (bytes_u32 b2)) = (r3, b3, ?w2\<lparr>rx := rx3\<rparr>)"
    using recv_exactly_frame [of ?w2 "unat (bytes_u32 b2)"] by blast
  show ?thesis
    unfolding doom_socket_recv_key_def using sel a b c
    by (simp add: Let_def split: prod.splits)
qed

lemma recv_exactly_0 [simp]: "recv_exactly w 0 = (0, [], w)"
  by (subst recv_exactly.simps) simp

lemma recv_exactly_closed: "0 < n \<Longrightarrow> rx w = [] \<Longrightarrow> recv_exactly w n = (- 1, [], w\<lparr>rx := []\<rparr>)"
  by (subst recv_exactly.simps) simp

lemma recv_exactly_Data:
  assumes "0 < n" "rx w = Data bs # es" "n \<le> length bs"
  shows "recv_exactly w n
          = (0, take n bs, w\<lparr>rx := (if n < length bs then Data (drop n bs) # es else es)\<rparr>)"
proof -
  have "bs \<noteq> []" using assms by auto
  then show ?thesis using assms by (subst recv_exactly.simps) (simp add: min_def)
qed

lemma header_split [simp]:
  "take 4 (msg_header a b) = u32_bytes a" "drop 4 (msg_header a b) = u32_bytes b"
  "length (msg_header a b) = 8"
  by (simp_all add: msg_header_def)

lemmas msg_types = MSG_FRAME_DATA_def MSG_KEY_EVENT_def MSG_INIT_COMPLETE_def MSG_SHUTDOWN_def
  MSG_SCREENSHOT_def

lemma digit_char_props:
  assumes "d < 10"
  shows "isdigit (digit_char d)" "(of_char (digit_char d) :: int) = 48 + int d"
    "digit_char d \<noteq> CHR 0x00" "\<not> isspace (digit_char d)" "digit_char d \<noteq> CHR ''-''"
    "digit_char d \<noteq> CHR ''+''" "digit_char d \<noteq> CHR '' ''" "digit_char d \<noteq> CHR 0x09"
    "digit_char d \<noteq> CHR ''t''"
proof -
  have n: "(of_char (digit_char d) :: nat) = 48 + d"
    using assms by (simp add: digit_char_def of_char_of)
  show "isdigit (digit_char d)" using assms n by (simp add: isdigit_def)
  have "int (of_char (digit_char d)) = of_char (digit_char d)" by (rule of_nat_of_char)
  then show "(of_char (digit_char d) :: int) = 48 + int d" unfolding n by simp
  show "\<not> isspace (digit_char d)" using n by (auto simp: isspace_def)
  show "digit_char d \<noteq> CHR 0x00" using n by auto
  show "digit_char d \<noteq> CHR ''-''" using n by auto
  show "digit_char d \<noteq> CHR ''+''" using n by auto
  show "digit_char d \<noteq> CHR '' ''" using n by auto
  show "digit_char d \<noteq> CHR 0x09" using n by auto
  show "digit_char d \<noteq> CHR ''t''" using n assms by auto
qed

lemma show_nat_chars: "c \<in> set (show_nat n) \<Longrightarrow> \<exists>d < 10. c = digit_char d"
proof (induction n rule: show_nat.induct)
  case (1 n)
  show ?case
  proof (cases "n < 10")
    case True
    then show ?thesis using 1(2) by (subst (asm) show_nat.simps) auto
  next
    case False
    have "c \<in> set (show_nat (n div 10)) \<or> c = digit_char (n mod 10)"
      using 1(2) False by (subst (asm) show_nat.simps) auto
    then show ?thesis
    proof
      assume "c \<in> set (show_nat (n div 10))"
      then show ?thesis using 1(1) False by simp
    next
      assume "c = digit_char (n mod 10)"
      then show ?thesis by (intro exI [of _ "n mod 10"]) simp
    qed
  qed
qed

lemma show_nat_nonempty: "show_nat n \<noteq> []"
  by (subst show_nat.simps) simp

lemma atoi_digits_show_nat:
  "atoi_digits acc (show_nat n @ rest) = atoi_digits (acc * 10 ^ length (show_nat n) + int n) rest"
proof (induction n arbitrary: acc rest rule: show_nat.induct)
  case (1 n)
  show ?case
  proof (cases "n < 10")
    case True
    then have s: "show_nat n = [digit_char n]" by (subst show_nat.simps) simp
    show ?thesis unfolding s using digit_char_props(1,2) [OF True] by simp
  next
    case False
    then have s: "show_nat n = show_nat (n div 10) @ [digit_char (n mod 10)]"
      by (subst show_nat.simps) simp
    have d: "n mod 10 < 10" by simp
    have "atoi_digits acc (show_nat n @ rest)
            = atoi_digits acc (show_nat (n div 10) @ (digit_char (n mod 10) # rest))"
      unfolding s by simp
    also have "\<dots> = atoi_digits (acc * 10 ^ length (show_nat (n div 10)) + int (n div 10))
                        (digit_char (n mod 10) # rest)"
      using 1 [OF False] by simp
    also have "\<dots> = atoi_digits ((acc * 10 ^ length (show_nat (n div 10)) + int (n div 10)) * 10
                          + int (n mod 10)) rest"
      using digit_char_props(1,2) [OF d] by simp
    also have "(acc * 10 ^ length (show_nat (n div 10)) + int (n div 10)) * 10 + int (n mod 10)
                 = acc * 10 ^ length (show_nat n) + int n"
    proof -
      have "int (n div 10) * 10 + int (n mod 10) = int n"
        by (metis mult.commute of_nat_add of_nat_mult of_nat_numeral div_mult_mod_eq)
      then show ?thesis unfolding s by (simp add: algebra_simps)
    qed
    finally show ?thesis .
  qed
qed

lemma atoi_value_fmt_d:
  assumes "\<not> isdigit r"
  shows "atoi_value (fmt_d n @ r # rest) = sint n"
proof (cases "sint n < 0")
  case True
  have "atoi_digits 0 (show_nat (nat (- sint n)) @ r # rest) = int (nat (- sint n))"
    using assms by (simp add: atoi_digits_show_nat)
  then show ?thesis
    using True by (simp add: fmt_d_def atoi_value_def isspace_def)
next
  case False
  let ?m = "nat (sint n)"
  obtain c cs where s: "show_nat ?m = c # cs"
    using show_nat_nonempty [of ?m] by (cases "show_nat ?m") auto
  then obtain d where d: "d < 10" "c = digit_char d"
    using show_nat_chars [of c ?m] by auto
  have v: "atoi_digits 0 (show_nat ?m @ r # rest) = int ?m"
    using assms by (simp add: atoi_digits_show_nat)
  have "atoi_value (show_nat ?m @ r # rest) = atoi_digits 0 (show_nat ?m @ r # rest)"
    unfolding atoi_value_def s using digit_char_props [OF d(1)] d(2) by simp
  then show ?thesis using False v by (simp add: fmt_d_def)
qed

lemma fmt_d_chars:
  assumes "c \<in> set (fmt_d n)"
  shows "c \<noteq> CHR 0x00 \<and> c \<noteq> CHR '' '' \<and> c \<noteq> CHR 0x09 \<and> c \<noteq> CHR ''t''"
proof -
  from assms have "c = CHR ''-'' \<or> (\<exists>m. c \<in> set (show_nat m))"
    by (auto simp: fmt_d_def split: if_splits)
  then show ?thesis
  proof
    assume "c = CHR ''-''"
    then show ?thesis by simp
  next
    assume "\<exists>m. c \<in> set (show_nat m)"
    then obtain m where "c \<in> set (show_nat m)" by blast
    then obtain d where "d < 10" "c = digit_char d" using show_nat_chars by blast
    then show ?thesis using digit_char_props(3,7,8,9) [of d] by simp
  qed
qed

lemma strstr_absent: "needle \<noteq> [] \<Longrightarrow> hd needle \<notin> set s \<Longrightarrow> strstr s needle = None"
proof (induction s)
  case Nil
  then show ?case by simp
next
  case (Cons c s)
  then obtain p ps where "needle = p # ps" by (cases needle) auto
  then show ?case using Cons by auto
qed

lemma fmt_d_nonempty: "fmt_d n \<noteq> []"
  by (simp add: fmt_d_def show_nat_nonempty)

lemma parse_key_event_json:
  "parse_key_event (key_event_json p n) = ((if p then 1 else 0), n)"
proof -
  obtain c cs where f: "fmt_d n = c # cs" using fmt_d_nonempty [of n] by (cases "fmt_d n") auto
  have c: "c \<noteq> CHR '' ''" "c \<noteq> CHR 0x09" using fmt_d_chars [of c n] f by simp_all
  have nz: "\<forall>x \<in> set (key_event_json p n). x \<noteq> CHR 0x00"
    using fmt_d_chars [of _ n] by (auto simp: key_event_json_def)
  have cs: "c_string (key_event_json p n) = key_event_json p n"
    unfolding c_string_def using nz by (simp add: takeWhile_eq_all_conv)
  have v: "atoi_value (fmt_d n @ ''}'') = sint n"
    using atoi_value_fmt_d [of "CHR ''}''" n "[]"] by (simp add: isdigit_def)
  have "strtol (fmt_d n @ ''}'') = sint n"
    unfolding strtol_def v LONG_MAX_def LONG_MIN_def
    using sint_ge [of n] sint_lt [of n] by simp
  then have a: "atoi (fmt_d n @ ''}'') = n"
    by (simp add: atoi_def)
  have dw: "dropWhile (\<lambda>c. c = CHR '' '' \<or> c = CHR 0x09) (fmt_d n @ ''}'') = fmt_d n @ ''}''"
    using c f by simp
  have nt: "strstr (fmt_d n @ ''}'') ''true'' = None"
    by (rule strstr_absent) (use fmt_d_chars [of "CHR ''t''" n] in auto)
  show ?thesis
    unfolding parse_key_event_def cs Let_def
    by (cases p) (simp_all add: key_event_json_def dw a nt)
qed

lemma recv_key_cut_header:
  assumes conn: "0 \<le>s g_socket_fd w" and rdy: "pending (rx w)"
    and cut: "length (avail (rx w)) < 8"
  shows "fst (doom_socket_recv_key w) = - 1"
proof -
  have nc: "\<not> g_socket_fd w <s 0" using conn by (simp add: word_sless_alt word_sle_eq)
  have w: "w\<lparr>rx := rx w\<rparr> = w" by simp
  show ?thesis
  proof (cases "length (avail (rx w)) < 4")
    case True
    from recv_exactly_short [OF True] obtain bs rx1
      where "recv_exactly w 4 = (- 1, bs, w\<lparr>rx := rx1\<rparr>)" by blast
    then show ?thesis
      unfolding doom_socket_recv_key_def using nc pending_select [OF rdy] by (simp add: w)
  next
    case False
    then have "4 \<le> length (avail (rx w))" by simp
    from recv_exactly_avail [OF this] obtain rx1
      where a: "recv_exactly w 4 = (0, take 4 (avail (rx w)), w\<lparr>rx := rx1\<rparr>)"
        and b: "avail rx1 = drop 4 (avail (rx w))" by blast
    let ?w1 = "w\<lparr>rx := rx1\<rparr>"
    have "length (avail (rx ?w1)) < 4" using b cut by simp
    from recv_exactly_short [OF this] obtain bs rx2
      where "recv_exactly ?w1 4 = (- 1, bs, ?w1\<lparr>rx := rx2\<rparr>)" by blast
    then show ?thesis
      unfolding doom_socket_recv_key_def using nc pending_select [OF rdy] a by (simp add: w)
  qed
qed

lemma close_disconnects: "doom_socket_is_connected (doom_socket_close w) = 0"
  by (simp add: doom_socket_close_def doom_socket_is_connected_def close_socket_def sys_write_def
      word_sle_eq split: list.splits wr_event.splits prod.splits)

text \<open>
  C3, as the code has it. \<open>doom_socket_recv_key\<close> reports a SHUTDOWN message, and a stream
  that ends or fails before a whole header has arrived, by returning -1, and it never
  touches the descriptor: \<open>doom_socket_is_connected\<close> answers afterwards what it answered
  before, so a Connected handle stays Connected. Only \<open>doom_socket_close\<close> (and a failing
  \<open>doom_socket_connect\<close>) make the handle Disconnected.
\<close>

theorem recv_key_leaves_handle:
  "doom_socket_is_connected (snd (snd (doom_socket_recv_key w))) = doom_socket_is_connected w \<and>
   fd_open (snd (snd (doom_socket_recv_key w))) = fd_open w \<and>
   (0 \<le>s g_socket_fd w \<and> pending (rx w) \<and> avail (rx w) = msg_header MSG_SHUTDOWN n @ rest
      \<longrightarrow> fst (doom_socket_recv_key w) = - 1) \<and>
   (0 \<le>s g_socket_fd w \<and> pending (rx w) \<and> length (avail (rx w)) < 8
      \<longrightarrow> fst (doom_socket_recv_key w) = - 1) \<and>
   doom_socket_is_connected (doom_socket_close w) = 0"
proof -
  have a: "doom_socket_is_connected (snd (snd (doom_socket_recv_key w))) = doom_socket_is_connected w"
    using recv_key_keeps_fd [of w] by (simp add: doom_socket_is_connected_def)
  have b: "fd_open (snd (snd (doom_socket_recv_key w))) = fd_open w"
    using recv_key_keeps_fd [of w] by simp
  have c: "fst (doom_socket_recv_key w) = - 1"
    if "0 \<le>s g_socket_fd w" "pending (rx w)" "avail (rx w) = msg_header MSG_SHUTDOWN n @ rest"
    using recv_key_message [OF that] by (auto simp: Let_def)
  show ?thesis
    using a b c recv_key_cut_header [of w] close_disconnects [of w] by blast
qed

theorem recv_key_leaves_handle_witness:
  "0 \<le>s g_socket_fd shutdown_world \<and> pending (rx shutdown_world) \<and>
   avail (rx shutdown_world) = msg_header MSG_SHUTDOWN 0 @ [] \<and>
   fst (doom_socket_recv_key shutdown_world) = - 1 \<and>
   0 \<le>s g_socket_fd idle_world \<and> pending (rx idle_world) \<and> length (avail (rx idle_world)) < 8 \<and>
   fst (doom_socket_recv_key idle_world) = - 1 \<and>
   doom_socket_is_connected idle_world = 1 \<and>
   doom_socket_is_connected (snd (snd (doom_socket_recv_key idle_world))) = 1 \<and>
   doom_socket_is_connected (doom_socket_close idle_world) = 0"
proof -
  have s: "0 \<le>s g_socket_fd shutdown_world \<and> pending (rx shutdown_world) \<and>
      avail (rx shutdown_world) = msg_header MSG_SHUTDOWN 0 @ []"
    by (simp add: shutdown_world_def idle_world_def pending_def word_sle_eq)
  have i: "0 \<le>s g_socket_fd idle_world \<and> pending (rx idle_world) \<and> length (avail (rx idle_world)) < 8"
    by (simp add: idle_world_def pending_def word_sle_eq)
  have c: "doom_socket_is_connected idle_world = 1"
    by (simp add: doom_socket_is_connected_def idle_world_def word_sle_eq)
  show ?thesis
    using recv_key_leaves_handle [of shutdown_world 0 "[]"] recv_key_leaves_handle [of idle_world 0 "[]"]
      s i c by simp
qed

text \<open>A connected handle with a SHUTDOWN message pending: the call returns -1 and the handle is still connected.\<close>

theorem shutdown_keeps_connected_counterexample:
  "doom_socket_is_connected shutdown_world = 1 \<and>
   rx shutdown_world = [Data (msg_header MSG_SHUTDOWN 0)] \<and>
   fst (doom_socket_recv_key shutdown_world) = - 1 \<and>
   doom_socket_is_connected (snd (snd (doom_socket_recv_key shutdown_world))) = 1"
  by (simp add: doom_socket_recv_key_def shutdown_world_def idle_world_def recv_exactly_Data
      doom_socket_is_connected_def word_sless_alt word_sle_eq Let_def)

lemma unknown_tag_small:
  assumes "0 \<le>s g_socket_fd w" "pending (rx w)"
    and "avail (rx w) = msg_header msg_type payload_len @ payload @ rest"
    and "msg_type \<noteq> MSG_SHUTDOWN" "msg_type \<noteq> MSG_KEY_EVENT"
    and "unat payload_len = length payload" "payload_len < 65536" "malloc_ok w"
  shows "fst (doom_socket_recv_key w) = 0 \<and> avail (rx (snd (snd (doom_socket_recv_key w)))) = rest"
proof -
  from recv_key_message [OF assms(1,2,3)] obtain rx2
    where a: "avail rx2 = payload @ rest"
      and k: "doom_socket_recv_key w =
           (if 0 < payload_len then
              (case recv_exactly (w\<lparr>rx := rx2\<rparr>) (unat payload_len) of (r, d, w3) \<Rightarrow> (0, None, w3))
            else (0, None, w\<lparr>rx := rx2\<rparr>))"
    using assms(4,5,7,8) by (auto simp: Let_def)
  let ?w2 = "w\<lparr>rx := rx2\<rparr>"
  have "unat payload_len \<le> length (avail (rx ?w2))" using a assms(6) by simp
  from recv_exactly_avail [OF this] obtain rx3
    where r: "recv_exactly ?w2 (unat payload_len) = (0, take (unat payload_len) (avail (rx ?w2)), ?w2\<lparr>rx := rx3\<rparr>)"
      and a3: "avail rx3 = drop (unat payload_len) (avail (rx ?w2))" by blast
  show ?thesis
  proof (cases "0 < payload_len")
    case True
    then show ?thesis using k r a3 a assms(6) by simp
  next
    case False
    then have "payload = []" using assms(6) by (simp add: word_greater_zero_iff)
    then show ?thesis using k False a by simp
  qed
qed

lemma unknown_tag_large:
  assumes "0 \<le>s g_socket_fd w" "pending (rx w)"
    and "avail (rx w) = msg_header msg_type payload_len @ rest"
    and "msg_type \<noteq> MSG_SHUTDOWN" "msg_type \<noteq> MSG_KEY_EVENT"
    and "65536 \<le> payload_len"
  shows "fst (doom_socket_recv_key w) = 0 \<and> avail (rx (snd (snd (doom_socket_recv_key w)))) = rest"
proof -
  have "\<not> payload_len < 65536" using assms(6) by simp
  then show ?thesis
    using recv_key_message [OF assms(1,2,3)] assms(4,5) by (auto simp: Let_def)
qed

text \<open>
  C4 asks for a connection-fatal error when a header with an unknown tag announces 65536
  bytes or more. The code skips the drain for such a length and returns 0, the no-message
  result, with the payload left in the stream; the next call reads payload bytes as a
  header (here \<open>0123\<close> and \<open>4567\<close>). Payloads below 65536 are drained and ignored, as
  \<open>unknown_tag_small\<close> shows.
\<close>

theorem unknown_tag_oversize:
  "rx oversize_world = [Data (msg_header 7 65536), Data ''0123456789abcdef''] \<and>
   doom_socket_recv_key oversize_world
     = (0, None, oversize_world\<lparr>rx := [Data ''0123456789abcdef'']\<rparr>) \<and>
   doom_socket_recv_key (oversize_world\<lparr>rx := [Data ''0123456789abcdef'']\<rparr>)
     = (0, None, oversize_world\<lparr>rx := [Data ''89abcdef'']\<rparr>)"
proof -
  have a: "doom_socket_recv_key oversize_world
      = (0, None, oversize_world\<lparr>rx := [Data ''0123456789abcdef'']\<rparr>)"
    by (simp add: doom_socket_recv_key_def oversize_world_def idle_world_def recv_exactly_Data
        word_sless_alt word_sle_eq Let_def msg_types)
  have b: "doom_socket_recv_key (oversize_world\<lparr>rx := [Data ''0123456789abcdef'']\<rparr>)
      = (0, None, oversize_world\<lparr>rx := [Data ''89abcdef'']\<rparr>)"
    by (simp add: doom_socket_recv_key_def oversize_world_def idle_world_def recv_exactly_Data
        word_sless_alt word_sle_eq Let_def msg_types bytes_u32_def)
  show ?thesis using a b by (simp add: oversize_world_def)
qed

lemma connect_failure_releases:
  assumes "socket_ret w <s 0 \<or> connect_ret w <s 0 \<or> length (avail (rx w)) < 8
            \<or> (\<exists>t n rest. avail (rx w) = msg_header t n @ rest \<and> t \<noteq> MSG_INIT_COMPLETE)"
  shows "fst (doom_socket_connect w) = - 1
         \<and> doom_socket_is_connected (snd (doom_socket_connect w)) = 0
         \<and> (\<not> socket_ret w <s 0 \<longrightarrow> \<not> fd_open (snd (doom_socket_connect w)))"
proof -
  let ?w = "w\<lparr>g_socket_fd := socket_ret w, fd_open := (if socket_ret w <s 0 then fd_open w else True)\<rparr>"
  have av: "avail (rx ?w) = avail (rx w)" by simp
  show ?thesis
  proof (cases "socket_ret w <s 0")
    case True
    then show ?thesis
      by (simp add: doom_socket_connect_def doom_socket_is_connected_def Let_def word_sless_alt word_sle_eq)
  next
    case s: False
    show ?thesis
    proof (cases "connect_ret w <s 0")
      case True
      then show ?thesis using s
        by (simp add: doom_socket_connect_def doom_socket_is_connected_def Let_def close_socket_def word_sle_eq)
    next
      case c: False
      show ?thesis
      proof (cases "length (avail (rx w)) < 4")
        case True
        then have "length (avail (rx ?w)) < 4" by simp
        from recv_exactly_short [OF this] obtain bs rx1
          where "recv_exactly ?w 4 = (- 1, bs, ?w\<lparr>rx := rx1\<rparr>)" by blast
        then show ?thesis using s c
          by (simp add: doom_socket_connect_def doom_socket_is_connected_def Let_def close_socket_def word_sle_eq)
      next
        case l4: False
        then have "4 \<le> length (avail (rx ?w))" by simp
        from recv_exactly_avail [OF this] obtain rx1
          where a: "recv_exactly ?w 4 = (0, take 4 (avail (rx w)), ?w\<lparr>rx := rx1\<rparr>)"
            and b: "avail rx1 = drop 4 (avail (rx w))" by auto
        let ?w1 = "?w\<lparr>rx := rx1\<rparr>"
        show ?thesis
        proof (cases "length (avail (rx w)) < 8")
          case True
          then have "length (avail (rx ?w1)) < 4" using b by simp
          from recv_exactly_short [OF this] obtain bs rx2
            where "recv_exactly ?w1 4 = (- 1, bs, ?w1\<lparr>rx := rx2\<rparr>)" by blast
          then show ?thesis using s c a
            by (simp add: doom_socket_connect_def doom_socket_is_connected_def Let_def close_socket_def word_sle_eq)
        next
          case False
          with assms s c obtain t n rest
            where h: "avail (rx w) = msg_header t n @ rest" and t: "t \<noteq> MSG_INIT_COMPLETE" by auto
          have "avail (rx ?w) = msg_header t n @ rest" using h by simp
          from recv_header [OF this] obtain r1 r2
            where "recv_exactly ?w 4 = (0, u32_bytes t, ?w\<lparr>rx := r1\<rparr>)"
              and "recv_exactly (?w\<lparr>rx := r1\<rparr>) 4 = (0, u32_bytes n, ?w\<lparr>rx := r2\<rparr>)" by blast
          then show ?thesis using s c t
            by (simp add: doom_socket_connect_def doom_socket_is_connected_def Let_def close_socket_def word_sle_eq)
        qed
      qed
    qed
  qed
qed

lemma handshake_rejection:
  "doom_socket_connect wrong_init_world = (- 1, idle_world\<lparr>g_socket_fd := - 1, fd_open := False\<rparr>)"
  by (simp add: doom_socket_connect_def wrong_init_world_def idle_world_def recv_exactly_Data
      recv_exactly_closed word_sless_alt word_sle_eq Let_def msg_types close_socket_def)

text \<open>
  C9 asks for an error, a released socket and a Disconnected handle whenever the peer
  closes during the handshake. Every failure up to the tag check does that
  (\<open>connect_failure_releases\<close>), but the result of the read that discards the payload is
  ignored: the peer announces a 4-byte INIT_COMPLETE payload and closes, and
  \<open>doom_socket_connect\<close> returns 0 with the handle Connected.
\<close>

theorem connect_ignores_cut_payload:
  "rx init_cut_world = [Data (msg_header MSG_INIT_COMPLETE 4)] \<and>
   doom_socket_connect init_cut_world = (0, idle_world) \<and>
   doom_socket_is_connected idle_world = 1 \<and> fd_open idle_world \<and> rx idle_world = []"
  by (simp add: doom_socket_connect_def init_cut_world_def idle_world_def recv_exactly_Data
      recv_exactly_closed word_sless_alt word_sle_eq Let_def msg_types doom_socket_is_connected_def)

lemma parse_key_val:
  "snd (parse_key_event payload) = word_of_int (max LONG_MIN (min LONG_MAX (key_number payload)))"
  by (simp add: parse_key_event_def key_number_def atoi_def strtol_def Let_def LONG_MIN_def
      LONG_MAX_def split: option.splits)

lemma byte_of_int: "uint (ucast (word_of_int v :: 32 word) :: 8 word) = v mod 256"
proof -
  have "uint (ucast (word_of_int v :: 32 word) :: 8 word) = take_bit 8 (uint (word_of_int v :: 32 word))"
    by (simp only: unsigned_ucast_eq) simp
  also have "\<dots> = take_bit 8 (take_bit 32 v)"
    by (simp only: uint_word_of_int take_bit_eq_mod) simp
  also have "\<dots> = take_bit 8 v" by simp
  finally show ?thesis by (simp add: take_bit_eq_mod)
qed

lemma recv_key_event:
  assumes "0 \<le>s g_socket_fd w" "pending (rx w)"
    and "avail (rx w) = msg_header MSG_KEY_EVENT (word_of_nat (length payload)) @ payload @ rest"
    and "length payload < 256"
  shows "fst (doom_socket_recv_key w) = 1 \<and>
         fst (snd (doom_socket_recv_key w))
           = Some (fst (parse_key_event payload), ucast (snd (parse_key_event payload))) \<and>
         avail (rx (snd (snd (doom_socket_recv_key w)))) = rest"
proof -
  let ?len = "word_of_nat (length payload) :: uint32"
  have u: "unat ?len = length payload" using assms(4) by (simp add: unat_of_nat)
  have small: "\<not> 256 \<le> ?len" using assms(4) u by (simp add: word_le_nat_alt)
  from recv_key_message [OF assms(1,2,3)] obtain rx2
    where a: "avail rx2 = payload @ rest"
      and k: "doom_socket_recv_key w =
           (case recv_exactly (w\<lparr>rx := rx2\<rparr>) (unat ?len) of
              (r, payload, w3) \<Rightarrow>
                if r < 0 then (- 1, None, w3)
                else (case parse_key_event payload of
                        (pressed_val, key_val) \<Rightarrow> (1, Some (pressed_val, ucast key_val), w3)))"
    using small by (auto simp: Let_def msg_types)
  let ?w2 = "w\<lparr>rx := rx2\<rparr>"
  have "unat ?len \<le> length (avail (rx ?w2))" using a u by simp
  from recv_exactly_avail [OF this] obtain rx3
    where r: "recv_exactly ?w2 (unat ?len) = (0, take (unat ?len) (avail (rx ?w2)), ?w2\<lparr>rx := rx3\<rparr>)"
      and a3: "avail rx3 = drop (unat ?len) (avail (rx ?w2))" by blast
  have res: "doom_socket_recv_key w
      = (1, Some (fst (parse_key_event payload), ucast (snd (parse_key_event payload))), w\<lparr>rx := rx3\<rparr>)"
    unfolding k r using a u by (simp add: split_beta)
  show ?thesis using res a3 a u by simp
qed

lemma key_number_json: "key_number (key_event_json p n) = sint n"
proof -
  obtain c cs where f: "fmt_d n = c # cs" using fmt_d_nonempty [of n] by (cases "fmt_d n") auto
  have c: "c \<noteq> CHR '' ''" "c \<noteq> CHR 0x09" using fmt_d_chars [of c n] f by simp_all
  have nz: "\<forall>x \<in> set (key_event_json p n). x \<noteq> CHR 0x00"
    using fmt_d_chars [of _ n] by (auto simp: key_event_json_def)
  have cs: "c_string (key_event_json p n) = key_event_json p n"
    unfolding c_string_def using nz by (simp add: takeWhile_eq_all_conv)
  have v: "atoi_value (fmt_d n @ ''}'') = sint n"
    using atoi_value_fmt_d [of "CHR ''}''" n "[]"] by (simp add: isdigit_def)
  have dw: "dropWhile (\<lambda>c. c = CHR '' '' \<or> c = CHR 0x09) (fmt_d n @ ''}'') = fmt_d n @ ''}''"
    using c f by simp
  show ?thesis
    unfolding key_number_def cs
    by (cases p) (simp_all add: key_event_json_def dw v)
qed

text \<open>
  C10, as the code has it. For every KEY_EVENT payload of less than 256 bytes that has
  arrived, however the reads split it, \<open>doom_socket_recv_key\<close> returns 1 and hands out the
  parsed \<open>pressed\<close> flag and the value of \<open>atoi\<close> cast to \<open>unsigned char\<close>; nothing is
  rejected. When the decimal number behind \<open>"key":\<close> fits a \<open>long\<close>, the key code is that
  number modulo 256, for negative numbers too: the payload \<open>{"pressed": p, "key": n}\<close>
  carries \<open>n\<close> for every 32-bit \<open>n\<close>, and 97, 353 and -159 all arrive as 97. A number
  above \<open>LONG_MAX\<close> arrives as 255 and one below \<open>LONG_MIN\<close> as 0, whatever its value
  modulo 256, because \<open>strtol\<close> saturates before the cast.
\<close>

theorem key_code_wraps:
  assumes "0 \<le>s g_socket_fd w" "pending (rx w)"
    and "avail (rx w) = msg_header MSG_KEY_EVENT (word_of_nat (length payload)) @ payload @ rest"
    and "length payload < 256"
  shows "fst (doom_socket_recv_key w) = 1 \<and>
         fst (snd (doom_socket_recv_key w))
           = Some (fst (parse_key_event payload), ucast (snd (parse_key_event payload))) \<and>
         (LONG_MIN \<le> key_number payload \<and> key_number payload \<le> LONG_MAX \<longrightarrow>
            uint (ucast (snd (parse_key_event payload)) :: byte) = key_number payload mod 256) \<and>
         (LONG_MAX < key_number payload \<longrightarrow> ucast (snd (parse_key_event payload)) = (255 :: byte)) \<and>
         (key_number payload < LONG_MIN \<longrightarrow> ucast (snd (parse_key_event payload)) = (0 :: byte)) \<and>
         key_number (key_event_json p n) = sint n \<and>
         parse_key_event (key_event_json p n) = ((if p then 1 else 0), n)"
proof -
  have a: "uint (ucast (snd (parse_key_event payload)) :: byte) = key_number payload mod 256"
    if "LONG_MIN \<le> key_number payload \<and> key_number payload \<le> LONG_MAX"
    using that unfolding parse_key_val by (simp add: byte_of_int)
  have b: "ucast (snd (parse_key_event payload)) = (255 :: byte)" if "LONG_MAX < key_number payload"
  proof -
    have "max LONG_MIN (min LONG_MAX (key_number payload)) = LONG_MAX"
      using that by (simp add: LONG_MIN_def LONG_MAX_def)
    then show ?thesis unfolding parse_key_val by (simp add: LONG_MAX_def)
  qed
  have c: "ucast (snd (parse_key_event payload)) = (0 :: byte)" if "key_number payload < LONG_MIN"
  proof -
    have "max LONG_MIN (min LONG_MAX (key_number payload)) = LONG_MIN"
      using that by (simp add: LONG_MIN_def LONG_MAX_def)
    then show ?thesis unfolding parse_key_val by (simp add: LONG_MIN_def)
  qed
  show ?thesis
    using recv_key_event [OF assms] a b c key_number_json [of p n] parse_key_event_json [of p n]
    by blast
qed

lemma send_exactly_ok:
  assumes "list_all accepts (wsched w)"
  shows "\<exists>ws. send_exactly w buf = (0, w\<lparr>tx := tx w @ buf, wsched := ws\<rparr>) \<and> list_all accepts ws"
  using assms
proof (induction "length buf" arbitrary: w buf rule: less_induct)
  case less
  show ?case
  proof (cases "buf = []")
    case True
    have "w\<lparr>tx := tx w, wsched := wsched w\<rparr> = w" by simp
    then show ?thesis
      using True less.prems by (subst send_exactly.simps) (auto intro!: exI [of _ "wsched w"])
  next
    case False
    show ?thesis
    proof (cases "wsched w")
      case Nil
      have "send_exactly w buf = send_exactly (w\<lparr>tx := tx w @ buf\<rparr>) []"
        using False Nil by (subst send_exactly.simps) (simp add: sys_write_def)
      also have "\<dots> = (0, w\<lparr>tx := tx w @ buf\<rparr>)" by (subst send_exactly.simps) simp
      finally show ?thesis using Nil by (auto intro!: exI [of _ "[]"])
    next
      case (Cons e ws)
      then obtain k where e: "e = Accept k" "0 < k" and ws: "list_all accepts ws"
        using less.prems by (cases e) (auto simp: accepts_def)
      let ?w1 = "w\<lparr>tx := tx w @ take k buf, wsched := ws\<rparr>"
      have st: "send_exactly w buf = send_exactly ?w1 (drop (min k (length buf)) buf)"
        using False Cons e by (subst send_exactly.simps) (simp add: sys_write_def min_def)
      have dk: "drop (min k (length buf)) buf = drop k buf" by (simp add: min_def)
      have "length (drop k buf) < length buf" using False e by simp
      from less.hyps [OF this, of ?w1] ws obtain ws'
        where "send_exactly ?w1 (drop k buf) = (0, ?w1\<lparr>tx := tx ?w1 @ drop k buf, wsched := ws'\<rparr>)"
          and "list_all accepts ws'" by auto
      then show ?thesis unfolding st dk by (auto intro!: exI [of _ ws'])
    qed
  qed
qed

lemma sys_write_frame:
  "\<exists>ret s ws. sys_write w buf = (ret, w\<lparr>tx := tx w @ s, wsched := ws\<rparr>)
     \<and> (0 < ret \<longrightarrow> s = take (nat ret) buf)"
proof (cases "wsched w")
  case Nil
  have "w\<lparr>tx := tx w @ buf\<rparr> = w\<lparr>tx := tx w @ buf, wsched := []\<rparr>"
    using Nil by simp
  then have "sys_write w buf = (int (length buf), w\<lparr>tx := tx w @ buf, wsched := []\<rparr>)"
    using Nil by (simp add: sys_write_def)
  then show ?thesis by (intro exI [of _ "int (length buf)"] exI [of _ buf] exI [of _ "[]"]) simp
next
  case (Cons e ws)
  show ?thesis
  proof (cases e)
    case (Accept m)
    have "sys_write w buf = (int (min m (length buf)), w\<lparr>tx := tx w @ take m buf, wsched := ws\<rparr>)"
      using Cons Accept by (simp add: sys_write_def)
    then show ?thesis
      by (intro exI [of _ "int (min m (length buf))"] exI [of _ "take m buf"] exI [of _ ws])
        (simp add: min_def)
  next
    case (WrFail err)
    have "w\<lparr>wsched := ws\<rparr> = w\<lparr>tx := tx w @ [], wsched := ws\<rparr>" by simp
    then have "sys_write w buf = (- 1, w\<lparr>tx := tx w @ [], wsched := ws\<rparr>)"
      using Cons WrFail by (simp add: sys_write_def)
    then show ?thesis by (intro exI [of _ "- 1"] exI [of _ "[]"] exI [of _ ws]) simp
  qed
qed

lemma send_exactly_frame:
  "\<exists>r sent ws. send_exactly w buf = (r, w\<lparr>tx := tx w @ sent, wsched := ws\<rparr>)
     \<and> (r = 0 \<and> sent = buf \<or> r = - 1)"
proof (induction "length buf" arbitrary: w buf rule: less_induct)
  case less
  show ?case
  proof (cases "buf = []")
    case True
    have "w\<lparr>tx := tx w, wsched := wsched w\<rparr> = w" by simp
    then have "send_exactly w buf = (0, w\<lparr>tx := tx w @ [], wsched := wsched w\<rparr>)"
      using True by (subst send_exactly.simps) simp
    then show ?thesis using True by blast
  next
    case False
    from sys_write_frame [of w buf] obtain ret s1 ws1
      where sw0: "sys_write w buf = (ret, w\<lparr>tx := tx w @ s1, wsched := ws1\<rparr>)"
        and s1: "0 < ret \<longrightarrow> s1 = take (nat ret) buf" by blast
    define w1 where "w1 = w\<lparr>tx := tx w @ s1, wsched := ws1\<rparr>"
    have sw: "sys_write w buf = (ret, w1)" and w1: "w1 = w\<lparr>tx := tx w @ s1, wsched := ws1\<rparr>"
      using sw0 by (simp_all add: w1_def)
    show ?thesis
    proof (cases "ret \<le> 0")
      case True
      then have "send_exactly w buf = (- 1, w\<lparr>tx := tx w @ s1, wsched := ws1\<rparr>)"
        using False sw w1 by (subst send_exactly.simps) simp
      then show ?thesis by blast
    next
      case pos: False
      have st: "send_exactly w buf = send_exactly w1 (drop (nat ret) buf)"
        using False sw pos by (subst send_exactly.simps) simp
      have "length (drop (nat ret) buf) < length buf" using False pos by simp
      from less.hyps [OF this, of w1] obtain r sent ws
        where i: "send_exactly w1 (drop (nat ret) buf) = (r, w1\<lparr>tx := tx w1 @ sent, wsched := ws\<rparr>)"
          and c: "r = 0 \<and> sent = drop (nat ret) buf \<or> r = - 1" by blast
      have "w1\<lparr>tx := tx w1 @ sent, wsched := ws\<rparr> = w\<lparr>tx := tx w @ (s1 @ sent), wsched := ws\<rparr>"
        by (simp add: w1)
      then have "send_exactly w buf = (r, w\<lparr>tx := tx w @ (s1 @ sent), wsched := ws\<rparr>)"
        using st i by simp
      moreover have "r = 0 \<and> s1 @ sent = buf \<or> r = - 1"
        using c s1 pos by auto
      ultimately show ?thesis by blast
    qed
  qed
qed

lemma send_message_ok:
  assumes "0 \<le>s g_socket_fd w" "list_all accepts (wsched w)"
  shows "\<exists>ws. doom_socket_send_message w msg_type json_data len
           = (0, w\<lparr>tx := tx w @ msg_header msg_type (word_of_nat len) @ take len json_data,
                    wsched := ws\<rparr>)"
proof -
  have nc: "\<not> g_socket_fd w <s 0" using assms(1) by (simp add: word_sless_alt word_sle_eq)
  let ?h = "u32_bytes msg_type @ u32_bytes (word_of_nat len)"
  from send_exactly_ok [OF assms(2), of ?h] obtain ws1
    where a: "send_exactly w ?h = (0, w\<lparr>tx := tx w @ ?h, wsched := ws1\<rparr>)"
      and b: "list_all accepts ws1" by blast
  let ?w1 = "w\<lparr>tx := tx w @ ?h, wsched := ws1\<rparr>"
  have "list_all accepts (wsched ?w1)" using b by simp
  from send_exactly_ok [OF this, of "take len json_data"] obtain ws2
    where c: "send_exactly ?w1 (take len json_data)
               = (0, ?w1\<lparr>tx := tx ?w1 @ take len json_data, wsched := ws2\<rparr>)" by blast
  have "doom_socket_send_message w msg_type json_data len
          = (0, w\<lparr>tx := tx w @ msg_header msg_type (word_of_nat len) @ take len json_data,
                   wsched := ws2\<rparr>)"
    unfolding doom_socket_send_message_def using nc a c by (simp add: Let_def msg_header_def)
  then show ?thesis by blast
qed

lemma send_message_frame:
  "\<exists>r sent ws. doom_socket_send_message w msg_type json_data len
      = (r, w\<lparr>tx := tx w @ sent, wsched := ws\<rparr>)
    \<and> (r = 0 \<and> sent = msg_header msg_type (word_of_nat len) @ take len json_data \<or> r = - 1)"
proof (cases "g_socket_fd w <s 0")
  case True
  have "w = w\<lparr>tx := tx w @ [], wsched := wsched w\<rparr>" by simp
  then have "doom_socket_send_message w msg_type json_data len
               = (- 1, w\<lparr>tx := tx w @ [], wsched := wsched w\<rparr>)"
    using True by (simp add: doom_socket_send_message_def)
  then show ?thesis by blast
next
  case False
  let ?h = "u32_bytes msg_type @ u32_bytes (word_of_nat len)"
  from send_exactly_frame [of w ?h] obtain r1 s1 ws1
    where a: "send_exactly w ?h = (r1, w\<lparr>tx := tx w @ s1, wsched := ws1\<rparr>)"
      and a': "r1 = 0 \<and> s1 = ?h \<or> r1 = - 1" by blast
  let ?w1 = "w\<lparr>tx := tx w @ s1, wsched := ws1\<rparr>"
  from send_exactly_frame [of ?w1 "take len json_data"] obtain r2 s2 ws2
    where b: "send_exactly ?w1 (take len json_data) = (r2, ?w1\<lparr>tx := tx ?w1 @ s2, wsched := ws2\<rparr>)"
      and b': "r2 = 0 \<and> s2 = take len json_data \<or> r2 = - 1" by blast
  have e: "?w1\<lparr>tx := tx ?w1 @ s2, wsched := ws2\<rparr> = w\<lparr>tx := tx w @ (s1 @ s2), wsched := ws2\<rparr>"
    by simp
  show ?thesis
  proof (cases "r1 < 0")
    case True
    then have "doom_socket_send_message w msg_type json_data len
                 = (- 1, w\<lparr>tx := tx w @ s1, wsched := ws1\<rparr>)"
      using False a by (simp add: doom_socket_send_message_def Let_def)
    then show ?thesis by blast
  next
    case r1: False
    then have h: "r1 = 0" "s1 = ?h" using a' by auto
    show ?thesis
    proof (cases "r2 < 0")
      case True
      then have "doom_socket_send_message w msg_type json_data len
                   = (- 1, w\<lparr>tx := tx w @ (s1 @ s2), wsched := ws2\<rparr>)"
        using False a b r1 e by (simp add: doom_socket_send_message_def Let_def h)
      then show ?thesis by blast
    next
      case r2: False
      then have p: "r2 = 0" "s2 = take len json_data" using b' by auto
      have "doom_socket_send_message w msg_type json_data len
                   = (0, w\<lparr>tx := tx w @ (s1 @ s2), wsched := ws2\<rparr>)"
        using False a b r1 r2 e by (simp add: doom_socket_send_message_def Let_def h)
      then show ?thesis using h p by (auto simp: msg_header_def)
    qed
  qed
qed

lemma send_frame_is_message:
  "doom_socket_send_frame w json_data len = doom_socket_send_message w MSG_FRAME_DATA json_data len"
  by (simp add: doom_socket_send_frame_def doom_socket_send_message_def)








lemma key_event_json_length: "length (key_event_json p n) < 256"
  using fmt_d_length [of n] by (simp add: key_event_json_def)

lemma key_world_facts:
  "0 \<le>s g_socket_fd (key_world n)" "pending (rx (key_world n))"
  "avail (rx (key_world n))
     = msg_header MSG_KEY_EVENT (word_of_nat (length (key_event_json True n))) @ key_event_json True n @ []"
  by (simp_all add: key_world_def idle_world_def pending_def word_sle_eq)

lemma big_key_number: "key_number big_key_payload = 9223372036854775905"
  by (simp add: key_number_def big_key_payload_def c_string_def atoi_value_def isspace_def
      isdigit_def)

lemma big_key_parse: "parse_key_event big_key_payload = (1, - 1)"
  by (simp add: parse_key_event_def big_key_payload_def c_string_def atoi_def strtol_def
      atoi_value_def isspace_def isdigit_def LONG_MAX_def LONG_MIN_def Let_def)

lemma big_key_byte: "ucast (snd (parse_key_event big_key_payload)) = (255 :: byte)"
  unfolding parse_key_val big_key_number by (simp add: LONG_MAX_def LONG_MIN_def)

lemma big_key_pressed: "fst (parse_key_event big_key_payload) = 1"
  by (simp add: big_key_parse)

lemma small_key_number: "key_number small_key_payload = - 9223372036854775905"
  by (simp add: key_number_def small_key_payload_def c_string_def atoi_value_def isspace_def
      isdigit_def)

lemma small_key_pressed: "fst (parse_key_event small_key_payload) = 0"
  by (simp add: parse_key_event_def small_key_payload_def c_string_def Let_def)

lemma small_key_world_facts:
  "0 \<le>s g_socket_fd small_key_world" "pending (rx small_key_world)"
  "avail (rx small_key_world)
     = msg_header MSG_KEY_EVENT (word_of_nat (length small_key_payload)) @ small_key_payload @ []"
  "length small_key_payload < 256"
  by (simp_all add: small_key_world_def idle_world_def pending_def word_sle_eq small_key_payload_def)

lemma big_key_world_facts:
  "0 \<le>s g_socket_fd big_key_world" "pending (rx big_key_world)"
  "avail (rx big_key_world)
     = msg_header MSG_KEY_EVENT (word_of_nat (length big_key_payload)) @ big_key_payload @ []"
  "length big_key_payload < 256"
  by (simp_all add: big_key_world_def idle_world_def pending_def word_sle_eq big_key_payload_def)

text \<open>
  A payload of 45 bytes whose key number is \<open>2\<^sup>6\<^sup>3 + 97\<close>: the number is 97 modulo 256, the key
  code that is handed out is 255.
\<close>

theorem key_saturates_counterexample:
  "length big_key_payload = 45 \<and>
   key_number big_key_payload = 9223372036854775905 \<and>
   (9223372036854775905 :: int) mod 256 = 97 \<and>
   fst (doom_socket_recv_key big_key_world) = 1 \<and>
   fst (snd (doom_socket_recv_key big_key_world)) = Some (1, 255)"
proof -
  have l: "length big_key_payload = 45" by (simp add: big_key_payload_def)
  show ?thesis
    using recv_key_event [OF big_key_world_facts] big_key_number l
    by (simp add: big_key_byte big_key_pressed)
qed

theorem key_code_wraps_witness:
  "0 \<le>s g_socket_fd (key_world 353) \<and> pending (rx (key_world 353)) \<and>
   avail (rx (key_world 353))
     = msg_header MSG_KEY_EVENT (word_of_nat (length (key_event_json True 353)))
         @ key_event_json True 353 @ [] \<and>
   length (key_event_json True 353) < 256 \<and>
   LONG_MIN \<le> key_number (key_event_json True 353) \<and> key_number (key_event_json True 353) \<le> LONG_MAX \<and>
   key_number (key_event_json True 353) = 353 \<and>
   fst (doom_socket_recv_key (key_world 353)) = 1 \<and>
   fst (snd (doom_socket_recv_key (key_world 353))) = Some (1, 97) \<and>
   fst (snd (doom_socket_recv_key (key_world 97))) = Some (1, 97) \<and>
   key_number (key_event_json True (- 159)) = - 159 \<and>
   fst (snd (doom_socket_recv_key (key_world (- 159)))) = Some (1, 97) \<and>
   LONG_MAX < key_number big_key_payload \<and>
   fst (snd (doom_socket_recv_key big_key_world)) = Some (1, 255) \<and>
   key_number small_key_payload < LONG_MIN \<and>
   fst (snd (doom_socket_recv_key small_key_world)) = Some (0, 0)"
proof -
  note ks = key_code_wraps [OF small_key_world_facts, of True 0]
  have h: "key_number small_key_payload < LONG_MIN"
    by (simp add: small_key_number LONG_MIN_def)
  have e: "fst (snd (doom_socket_recv_key small_key_world)) = Some (0, 0)"
    using ks h by (simp add: small_key_pressed)
  note k353 = key_code_wraps [OF key_world_facts [of 353] key_event_json_length, of True 353]
  note k97 = key_code_wraps [OF key_world_facts [of 97] key_event_json_length, of True 97]
  note km = key_code_wraps [OF key_world_facts [of "- 159"] key_event_json_length, of True "- 159"]
  note kb = key_code_wraps [OF big_key_world_facts, of True 0]
  have n: "key_number (key_event_json True 353) = 353" "key_number (key_event_json True (- 159)) = - 159"
    using k353 km by simp_all
  have r: "LONG_MIN \<le> key_number (key_event_json True 353) \<and> key_number (key_event_json True 353) \<le> LONG_MAX"
    unfolding n by (simp add: LONG_MIN_def LONG_MAX_def)
  have a: "fst (doom_socket_recv_key (key_world 353)) = 1 \<and>
      fst (snd (doom_socket_recv_key (key_world 353))) = Some (1, 97)"
    using k353 by simp
  have b: "fst (snd (doom_socket_recv_key (key_world 97))) = Some (1, 97)"
    using k97 by simp
  have c: "fst (snd (doom_socket_recv_key (key_world (- 159)))) = Some (1, 97)"
    using km by simp
  have g: "LONG_MAX < key_number big_key_payload"
    by (simp add: big_key_number LONG_MAX_def)
  have d: "fst (snd (doom_socket_recv_key big_key_world)) = Some (1, 255)"
    using kb g by (simp add: big_key_byte big_key_pressed)
  show ?thesis using a b c d e g h n r key_world_facts [of 353] key_event_json_length by simp
qed

subsection \<open>The frame hook\<close>

lemma handleKeyInput_sock: "sock (after (handleKeyInput conv es b)) = sock b"
  by (induction conv es b rule: handleKeyInput.induct)
    (simp_all add: after_def addKeyToQueue_def Let_def)

lemma handleKeyInput_rest:
  "g_frame_count (after (handleKeyInput conv es b)) = g_frame_count b \<and>
   last_screenshot_time (after (handleKeyInput conv es b)) = last_screenshot_time b"
  by (induction conv es b rule: handleKeyInput.induct)
    (simp_all add: after_def addKeyToQueue_def Let_def)

lemma handleKeyInput_queue:
  assumes "s_KeyQueue b1 = s_KeyQueue b2" "s_KeyQueueWriteIndex b1 = s_KeyQueueWriteIndex b2"
  shows "s_KeyQueue (after (handleKeyInput conv es b1)) = s_KeyQueue (after (handleKeyInput conv es b2))
       \<and> s_KeyQueueWriteIndex (after (handleKeyInput conv es b1))
           = s_KeyQueueWriteIndex (after (handleKeyInput conv es b2))
       \<and> is_running (handleKeyInput conv es b1) = is_running (handleKeyInput conv es b2)"
  using assms
proof (induction es arbitrary: b1 b2)
  case Nil
  then show ?case by (simp add: after_def is_running_def)
next
  case (Cons e es)
  show ?case
  proof (cases e)
    case SDL_QUIT
    then show ?thesis using Cons.prems by (simp add: after_def is_running_def)
  next
    case (SDL_KEYDOWN k)
    have "s_KeyQueue (addKeyToQueue conv 1 k b1) = s_KeyQueue (addKeyToQueue conv 1 k b2)"
      "s_KeyQueueWriteIndex (addKeyToQueue conv 1 k b1) = s_KeyQueueWriteIndex (addKeyToQueue conv 1 k b2)"
      using Cons.prems by (simp_all add: addKeyToQueue_def Let_def)
    from Cons.IH [OF this] show ?thesis using SDL_KEYDOWN by simp
  next
    case (SDL_KEYUP k)
    have "s_KeyQueue (addKeyToQueue conv 0 k b1) = s_KeyQueue (addKeyToQueue conv 0 k b2)"
      "s_KeyQueueWriteIndex (addKeyToQueue conv 0 k b1) = s_KeyQueueWriteIndex (addKeyToQueue conv 0 k b2)"
      using Cons.prems by (simp_all add: addKeyToQueue_def Let_def)
    from Cons.IH [OF this] show ?thesis using SDL_KEYUP by simp
  next
    case SDL_OTHER
    then show ?thesis using Cons.IH [OF Cons.prems] by simp
  qed
qed

lemma running_after: "is_running out \<Longrightarrow> out = Running (after out)"
  by (cases out) (simp_all add: is_running_def after_def)

lemma screenshot_step_frame:
  "\<exists>sent ws. screenshot_step t b
      = b\<lparr>sock := (sock b)\<lparr>tx := tx (sock b) @ sent, wsched := ws\<rparr>,
           last_screenshot_time := last_screenshot_time (screenshot_step t b)\<rparr>"
proof -
  let ?m = "screenshot_msg (current_time t)"
  from send_message_frame [of "sock b" MSG_SCREENSHOT ?m "length ?m"] obtain r sent ws
    where s: "doom_socket_send_message (sock b) MSG_SCREENSHOT ?m (length ?m)
               = (r, (sock b)\<lparr>tx := tx (sock b) @ sent, wsched := ws\<rparr>)" by blast
  consider (first) "last_screenshot_time b = 0"
    | (shot) "last_screenshot_time b \<noteq> 0" "3000 \<le> current_time t - last_screenshot_time b"
        "surface_ok t \<and> savebmp_ok t"
    | (noshot) "last_screenshot_time b \<noteq> 0" "3000 \<le> current_time t - last_screenshot_time b"
        "\<not> (surface_ok t \<and> savebmp_ok t)"
    | (wait) "last_screenshot_time b \<noteq> 0" "\<not> 3000 \<le> current_time t - last_screenshot_time b"
    by blast
  then show ?thesis
  proof cases
    case first
    then have e: "screenshot_step t b = b\<lparr>last_screenshot_time := current_time t\<rparr>"
      by (simp add: screenshot_step_def)
    show ?thesis by (intro exI [of _ "[]"] exI [of _ "wsched (sock b)"]) (simp add: e)
  next
    case shot
    then have "screenshot_step t b
        = b\<lparr>sock := (sock b)\<lparr>tx := tx (sock b) @ sent, wsched := ws\<rparr>,
             last_screenshot_time := current_time t\<rparr>"
      using s by (simp add: screenshot_step_def Let_def)
    then show ?thesis by (intro exI [of _ sent] exI [of _ ws]) simp
  next
    case noshot
    then have e: "screenshot_step t b = b\<lparr>last_screenshot_time := current_time t\<rparr>"
      by (auto simp add: screenshot_step_def Let_def)
    show ?thesis by (intro exI [of _ "[]"] exI [of _ "wsched (sock b)"]) (simp add: e)
  next
    case wait
    then have e: "screenshot_step t b = b" by (simp add: screenshot_step_def)
    show ?thesis by (intro exI [of _ "[]"] exI [of _ "wsched (sock b)"]) (simp add: e)
  qed
qed


lemma DG_DrawFrame_cases:
  "\<exists>r sent ws. doom_socket_send_frame (sock b) (content (extract_vectors_to_json (render t) (g_frame_count b)))
        (nat (offset (extract_vectors_to_json (render t) (g_frame_count b))))
      = (r, (sock b)\<lparr>tx := tx (sock b) @ sent, wsched := ws\<rparr>)
    \<and> (r = 0 \<and> sent = frame_message t b \<or> r = - 1)"
  using send_message_frame [of "sock b" MSG_FRAME_DATA
      "content (extract_vectors_to_json (render t) (g_frame_count b))"
      "nat (offset (extract_vectors_to_json (render t) (g_frame_count b)))"]
  by (simp add: send_frame_is_message frame_message_def Let_def)

lemma DG_DrawFrame_effect:
  "rx (sock (after (DG_DrawFrame conv t b))) = rx (sock b) \<and>
   (DG_DrawFrame conv t b = Running b' \<longrightarrow>
      take (length (tx (sock b)) + length (frame_message t b)) (tx (sock b'))
        = tx (sock b) @ frame_message t b \<and>
      handleKeyInput conv (sdl_events t) b = Running (after (handleKeyInput conv (sdl_events t) b)) \<and>
      s_KeyQueue b' = s_KeyQueue (after (handleKeyInput conv (sdl_events t) b)) \<and>
      s_KeyQueueWriteIndex b' = s_KeyQueueWriteIndex (after (handleKeyInput conv (sdl_events t) b)) \<and>
      g_frame_count b' = g_frame_count b + 1)"
proof -
  from DG_DrawFrame_cases [of b t] obtain r sent ws
    where sf: "doom_socket_send_frame (sock b) (content (extract_vectors_to_json (render t) (g_frame_count b)))
        (nat (offset (extract_vectors_to_json (render t) (g_frame_count b))))
      = (r, (sock b)\<lparr>tx := tx (sock b) @ sent, wsched := ws\<rparr>)"
      and r: "r = 0 \<and> sent = frame_message t b \<or> r = - 1" by blast
  let ?w = "(sock b)\<lparr>tx := tx (sock b) @ sent, wsched := ws\<rparr>"
  let ?b1 = "b\<lparr>sock := ?w\<rparr>"
  let ?h = "handleKeyInput conv (sdl_events t) ?b1"
  have q: "s_KeyQueue (after ?h) = s_KeyQueue (after (handleKeyInput conv (sdl_events t) b))
       \<and> s_KeyQueueWriteIndex (after ?h)
           = s_KeyQueueWriteIndex (after (handleKeyInput conv (sdl_events t) b))
       \<and> is_running ?h = is_running (handleKeyInput conv (sdl_events t) b)"
    by (rule handleKeyInput_queue) simp_all
  have hs: "sock (after ?h) = ?w" using handleKeyInput_sock [of conv "sdl_events t" ?b1] by simp
  have hg: "g_frame_count (after ?h) = g_frame_count b"
    using handleKeyInput_rest [of conv "sdl_events t" ?b1] by simp
  show ?thesis
  proof (cases "r = 0")
    case False
    then have "r <s 0" using r by (auto simp: word_sless_alt)
    then have "DG_DrawFrame conv t b = Exited 1 ?b1"
      using sf by (simp add: DG_DrawFrame_def Let_def)
    then show ?thesis by (simp add: after_def)
  next
    case True
    then have s: "sent = frame_message t b" and nr: "\<not> r <s 0" using r by (auto simp: word_sless_alt)
    show ?thesis
    proof (cases ?h)
      case (Exited c b2)
      then have "DG_DrawFrame conv t b = Exited c b2"
        using sf nr by (simp add: DG_DrawFrame_def Let_def)
      moreover have "sock b2 = ?w" using hs Exited by (simp add: after_def)
      ultimately show ?thesis by (simp add: after_def)
    next
      case (Running b2)
      let ?b3 = "b2\<lparr>g_frame_count := g_frame_count b2 + 1\<rparr>"
      have d: "DG_DrawFrame conv t b = Running (screenshot_step t ?b3)"
        using sf nr Running by (simp add: DG_DrawFrame_def Let_def)
      have b2: "sock b2 = ?w" "g_frame_count b2 = g_frame_count b"
        "s_KeyQueue b2 = s_KeyQueue (after (handleKeyInput conv (sdl_events t) b))"
        "s_KeyQueueWriteIndex b2 = s_KeyQueueWriteIndex (after (handleKeyInput conv (sdl_events t) b))"
        "is_running (handleKeyInput conv (sdl_events t) b)"
        using hs hg q Running by (simp_all add: after_def is_running_def)
      from screenshot_step_frame [of t ?b3] obtain sent2 ws2
        where ss: "screenshot_step t ?b3
            = ?b3\<lparr>sock := (sock ?b3)\<lparr>tx := tx (sock ?b3) @ sent2, wsched := ws2\<rparr>,
                   last_screenshot_time := last_screenshot_time (screenshot_step t ?b3)\<rparr>" by blast
      define b4 where "b4 = screenshot_step t ?b3"
      have b4: "rx (sock b4) = rx (sock b)" "tx (sock b4) = tx (sock b) @ frame_message t b @ sent2"
        "s_KeyQueue b4 = s_KeyQueue b2" "s_KeyQueueWriteIndex b4 = s_KeyQueueWriteIndex b2"
        "g_frame_count b4 = g_frame_count b + 1"
        unfolding b4_def by (subst ss, simp add: b2 s)+
      have "DG_DrawFrame conv t b = Running b4" using d by (simp add: b4_def)
      then show ?thesis
        using b4 b2 running_after [OF b2(5)] by (auto simp: after_def)
    qed
  qed
qed


lemma handleKeyInput_runs: "SDL_QUIT \<notin> set es \<Longrightarrow> is_running (handleKeyInput conv es b)"
  by (induction conv es b rule: handleKeyInput.induct) (simp_all add: is_running_def)

lemma DG_DrawFrame_runs:
  assumes "0 \<le>s g_socket_fd (sock b)" "list_all accepts (wsched (sock b))"
    "SDL_QUIT \<notin> set (sdl_events t)"
  shows "is_running (DG_DrawFrame conv t b)"
proof -
  from send_message_ok [OF assms(1,2)] obtain ws w1
    where sf: "doom_socket_send_frame (sock b) (content (extract_vectors_to_json (render t) (g_frame_count b)))
        (nat (offset (extract_vectors_to_json (render t) (g_frame_count b)))) = (0, w1)"
    unfolding send_frame_is_message by blast
  have "is_running (handleKeyInput conv (sdl_events t) (b\<lparr>sock := w1\<rparr>))"
    by (rule handleKeyInput_runs [OF assms(3)])
  then show ?thesis
    using sf by (auto simp: DG_DrawFrame_def Let_def is_running_def split: outcome.splits)
qed

text \<open>
  C5, as the code has it. On every tick \<open>DG_DrawFrame\<close> first sends the FRAME_DATA message
  of the frame, completely (a failing send ends the process), then takes every pending SDL
  event, not at most one, and puts the key events on the key queue, and counts the frame.
  It never reads from the transport: the inbound stream is the same after the tick as
  before, so a KEY_EVENT or SHUTDOWN message of the peer is neither parsed nor enqueued
  and does not end the loop. \<open>doom_socket_recv_key\<close> has no caller in the frame hook.
\<close>

theorem frame_hook_never_polls:
  "rx (sock (after (DG_DrawFrame conv t b))) = rx (sock b) \<and>
   (DG_DrawFrame conv t b = Running b' \<longrightarrow>
      take (length (tx (sock b)) + length (frame_message t b)) (tx (sock b'))
        = tx (sock b) @ frame_message t b \<and>
      handleKeyInput conv (sdl_events t) b = Running (after (handleKeyInput conv (sdl_events t) b)) \<and>
      s_KeyQueue b' = s_KeyQueue (after (handleKeyInput conv (sdl_events t) b)) \<and>
      s_KeyQueueWriteIndex b' = s_KeyQueueWriteIndex (after (handleKeyInput conv (sdl_events t) b)) \<and>
      g_frame_count b' = g_frame_count b + 1)"
  by (rule DG_DrawFrame_effect)

lemma pending_bridge_facts:
  "0 \<le>s g_socket_fd (sock key_pending_bridge)" "list_all accepts (wsched (sock key_pending_bridge))"
  "tx (sock key_pending_bridge) = []"
  "0 \<le>s g_socket_fd (sock shutdown_bridge)" "list_all accepts (wsched (sock shutdown_bridge))"
  by (simp_all add: key_pending_bridge_def shutdown_bridge_def key_world_def shutdown_world_def
      idle_world_def word_sle_eq)

theorem frame_hook_never_polls_witness:
  "DG_DrawFrame plain_keys busy_tick key_pending_bridge
     = Running (after (DG_DrawFrame plain_keys busy_tick key_pending_bridge)) \<and>
   rx (sock (after (DG_DrawFrame plain_keys busy_tick key_pending_bridge))) = rx (sock key_pending_bridge) \<and>
   take (length (frame_message busy_tick key_pending_bridge))
        (tx (sock (after (DG_DrawFrame plain_keys busy_tick key_pending_bridge))))
     = frame_message busy_tick key_pending_bridge \<and>
   s_KeyQueueWriteIndex (after (DG_DrawFrame plain_keys busy_tick key_pending_bridge)) = 3 \<and>
   g_frame_count (after (DG_DrawFrame plain_keys busy_tick key_pending_bridge)) = 1"
proof -
  have q: "SDL_QUIT \<notin> set (sdl_events busy_tick)" by (simp add: busy_tick_def)
  have r: "DG_DrawFrame plain_keys busy_tick key_pending_bridge
     = Running (after (DG_DrawFrame plain_keys busy_tick key_pending_bridge))"
    by (rule running_after [OF DG_DrawFrame_runs [OF pending_bridge_facts(1,2) q]])
  have k: "s_KeyQueueWriteIndex (after (handleKeyInput plain_keys (sdl_events busy_tick) key_pending_bridge)) = 3"
    by (simp add: busy_tick_def key_pending_bridge_def addKeyToQueue_def Let_def after_def
        KEYQUEUE_SIZE_def)
  have g: "g_frame_count key_pending_bridge = 0" by (simp add: key_pending_bridge_def)
  show ?thesis
    using frame_hook_never_polls [of plain_keys busy_tick key_pending_bridge
        "after (DG_DrawFrame plain_keys busy_tick key_pending_bridge)"]
      r k g pending_bridge_facts(3)
    by simp
qed

text \<open>
  A KEY_EVENT for key 97 is pending on the socket and SDL has no event: after the tick the
  message is still unread and the key queue is untouched. With a SHUTDOWN message pending
  the loop goes on.
\<close>

theorem frame_hook_counterexample:
  "rx (sock key_pending_bridge)
     = [Data (msg_header MSG_KEY_EVENT (word_of_nat (length (key_event_json True 97)))),
        Data (key_event_json True 97)] \<and>
   is_running (DG_DrawFrame plain_keys quiet_tick key_pending_bridge) \<and>
   rx (sock (after (DG_DrawFrame plain_keys quiet_tick key_pending_bridge)))
     = rx (sock key_pending_bridge) \<and>
   s_KeyQueueWriteIndex (after (DG_DrawFrame plain_keys quiet_tick key_pending_bridge)) = 0 \<and>
   s_KeyQueue (after (DG_DrawFrame plain_keys quiet_tick key_pending_bridge)) = replicate 16 0 \<and>
   rx (sock shutdown_bridge) = [Data (msg_header MSG_SHUTDOWN 0)] \<and>
   is_running (DG_DrawFrame plain_keys quiet_tick shutdown_bridge) \<and>
   rx (sock (after (DG_DrawFrame plain_keys quiet_tick shutdown_bridge))) = rx (sock shutdown_bridge)"
proof -
  have q: "SDL_QUIT \<notin> set (sdl_events quiet_tick)" by (simp add: quiet_tick_def)
  have a: "is_running (DG_DrawFrame plain_keys quiet_tick key_pending_bridge)"
    by (rule DG_DrawFrame_runs [OF pending_bridge_facts(1,2) q])
  have b: "is_running (DG_DrawFrame plain_keys quiet_tick shutdown_bridge)"
    by (rule DG_DrawFrame_runs [OF pending_bridge_facts(4,5) q])
  have h: "after (handleKeyInput plain_keys (sdl_events quiet_tick) key_pending_bridge) = key_pending_bridge"
    by (simp add: quiet_tick_def after_def)
  from DG_DrawFrame_effect [of plain_keys quiet_tick key_pending_bridge
      "after (DG_DrawFrame plain_keys quiet_tick key_pending_bridge)"] running_after [OF a]
  have c: "rx (sock (after (DG_DrawFrame plain_keys quiet_tick key_pending_bridge)))
     = rx (sock key_pending_bridge)"
    "s_KeyQueueWriteIndex (after (DG_DrawFrame plain_keys quiet_tick key_pending_bridge)) = 0"
    "s_KeyQueue (after (DG_DrawFrame plain_keys quiet_tick key_pending_bridge)) = replicate 16 0"
    unfolding h by (simp_all add: key_pending_bridge_def)
  have d: "rx (sock (after (DG_DrawFrame plain_keys quiet_tick shutdown_bridge))) = rx (sock shutdown_bridge)"
    using DG_DrawFrame_effect [of plain_keys quiet_tick shutdown_bridge] by simp
  have e: "rx (sock key_pending_bridge)
     = [Data (msg_header MSG_KEY_EVENT (word_of_nat (length (key_event_json True 97)))),
        Data (key_event_json True 97)]"
    "rx (sock shutdown_bridge) = [Data (msg_header MSG_SHUTDOWN 0)]"
    by (simp_all add: key_pending_bridge_def shutdown_bridge_def key_world_def shutdown_world_def
        idle_world_def)
  show ?thesis using a b c d e by simp
qed

end
